theory Spec2Isabelle
  imports Main
begin

section \<open>The calendar scheduler of backend/app/apis/scheduler\<close>

text \<open>
  A shallow embedding of \<^verbatim>\<open>src/backend/app/apis/scheduler/__init__.py\<close>: the conflict
  checker \<^verbatim>\<open>is_conflicting\<close>, the event creation \<^verbatim>\<open>create_event\<close>, the slot finder
  \<^verbatim>\<open>get_available_slots\<close> and the wrapper \<^verbatim>\<open>suggest_alternative_times\<close>.

  Python's library is not part of the repository. Its two parsers are parameters of the
  model: \<open>fromisoformat\<close> stands for \<^verbatim>\<open>datetime.fromisoformat\<close> and \<open>strptime\<close> for
  \<^verbatim>\<open>datetime.strptime(_, "%Y-%m-%d").date()\<close>; \<open>None\<close> is the \<^verbatim>\<open>ValueError\<close> either
  raises on a string it does not accept. Every theorem holds for all parsers.
\<close>

subsection \<open>Dates, instants and durations\<close>

text \<open>
  A \<^verbatim>\<open>date\<close> is its proleptic Gregorian ordinal (\<^verbatim>\<open>date.toordinal()\<close>, day 1 is
  0001-01-01). A naive \<^verbatim>\<open>datetime\<close> is the number of microseconds
  \<open>ordinal * 86400000000 + microseconds into the day\<close>; Python compares naive datetimes
  field by field, which is the order of these numbers. A \<^verbatim>\<open>timedelta\<close> is a number
  of microseconds. Timestamps are timezone-naive, as the data model of the specification
  has them.
\<close>

type_synonym date = int
type_synonym datetime = int
type_synonym timedelta = int

datatype error =
    InvalidDate           \<comment> \<open>HTTPException(400, "Invalid date format. Use YYYY-MM-DD")\<close>
  | Conflict              \<comment> \<open>HTTPException(400, "Event conflicts with existing events")\<close>
  | MalformedTimestamp    \<comment> \<open>the ValueError of datetime.fromisoformat\<close>
  | OverflowError         \<comment> \<open>the OverflowError of timedelta(...) and of datetime + timedelta\<close>

definition us_per_minute :: int where
  "us_per_minute = 60000000"

definition us_per_hour :: int where
  "us_per_hour = 3600000000"

definition us_per_day :: int where
  "us_per_day = 86400000000"

text \<open>\<^verbatim>\<open>date.max.toordinal()\<close>, the ordinal of 9999-12-31.\<close>

definition MAXORDINAL :: int where
  "MAXORDINAL = 3652059"

text \<open>\<^verbatim>\<open>dt.date()\<close>.\<close>

definition date_of :: "datetime \<Rightarrow> date" where
  "date_of t = t div us_per_day"

text \<open>\<^verbatim>\<open>datetime.combine(d, datetime.min.time().replace(hour=h))\<close>.\<close>

definition combine_hour :: "date \<Rightarrow> int \<Rightarrow> datetime" where
  "combine_hour d h = d * us_per_day + h * us_per_hour"

text \<open>
  \<^verbatim>\<open>timedelta(minutes=m)\<close>: Python normalises to days, seconds and microseconds and raises
  \<^verbatim>\<open>OverflowError\<close> when the days exceed 999999999 in magnitude.
\<close>

definition timedelta_minutes :: "int \<Rightarrow> error + timedelta" where
  "timedelta_minutes m =
     (if - 999999999 \<le> m div 1440 \<and> m div 1440 \<le> 999999999
      then Inr (m * us_per_minute) else Inl OverflowError)"

text \<open>
  \<^verbatim>\<open>t + delta\<close> on a datetime: \<^verbatim>\<open>OverflowError\<close> when the day of the result is not in
  \<open>1 .. MAXORDINAL\<close>.
\<close>

definition add_timedelta :: "datetime \<Rightarrow> timedelta \<Rightarrow> error + datetime" where
  "add_timedelta t delta =
     (if 0 < date_of (t + delta) \<and> date_of (t + delta) \<le> MAXORDINAL
      then Inr (t + delta) else Inl OverflowError)"

subsection \<open>The data model\<close>

text \<open>
  \<^verbatim>\<open>TimeSlot\<close> holds the two instants of a slot, \<^verbatim>\<open>start\<close> and \<^verbatim>\<open>end\<close> (here
  \<open>ts_start\<close> and \<open>ts_end\<close>); the source stores their \<^verbatim>\<open>isoformat()\<close> renderings.
  \<^verbatim>\<open>CalendarEvent\<close> keeps its timestamps as the strings the source keeps (its field
  \<^verbatim>\<open>id\<close> is \<open>event_id\<close> here). The stored events are the dictionaries
  \<^verbatim>\<open>event.dict()\<close> produces, so they have the same fields.
\<close>

record TimeSlot =
  ts_start :: datetime
  ts_end :: datetime

record ScheduleRequest =
  date :: string
  duration_minutes :: int

record CalendarEvent =
  event_id :: string
  title :: string
  description :: "string option"
  start_time :: string
  end_time :: string
  is_all_day :: bool
  status :: string
  source :: string
  meeting_request_id :: "string option"

text \<open>
  The JSON storage of \<^verbatim>\<open>databutton\<close>: a dictionary \<open>json\<close> from keys to stored
  values, and whether a read of it raises (\<open>get_raises\<close>: the storage cannot be reached
  or the stored value cannot be decoded). \<open>json_get\<close> is
  \<^verbatim>\<open>db.storage.json.get(key, default=...)\<close>, with \<open>None\<close> for the exception, and
  \<open>json_put\<close> is \<^verbatim>\<open>db.storage.json.put(key, value)\<close>, which overwrites the value of
  the key and is taken to succeed.
\<close>

record storage =
  json :: "string \<rightharpoonup> CalendarEvent list"
  get_raises :: bool

definition json_get :: "storage \<Rightarrow> string \<Rightarrow> CalendarEvent list \<Rightarrow> CalendarEvent list option" where
  "json_get db key default_value =
     (if get_raises db then None
      else Some (case json db key of None \<Rightarrow> default_value | Some stored_value \<Rightarrow> stored_value))"

definition json_put :: "storage \<Rightarrow> string \<Rightarrow> CalendarEvent list \<Rightarrow> storage" where
  "json_put db key new_value = db\<lparr>json := (json db)(key \<mapsto> new_value)\<rparr>"

text \<open>
  \<^verbatim>\<open>get_calendar_events\<close> reads key \<^verbatim>\<open>calendar_events\<close> with default \<^verbatim>\<open>[]\<close>, and
  its bare \<^verbatim>\<open>except\<close> turns a read that raises into \<^verbatim>\<open>[]\<close> as well.
  \<^verbatim>\<open>save_calendar_events\<close> overwrites the key.
\<close>

definition get_calendar_events :: "storage \<Rightarrow> CalendarEvent list" where
  "get_calendar_events db =
     (case json_get db ''calendar_events'' [] of None \<Rightarrow> [] | Some events \<Rightarrow> events)"

definition save_calendar_events :: "storage \<Rightarrow> CalendarEvent list \<Rightarrow> storage" where
  "save_calendar_events db events = json_put db ''calendar_events'' events"

subsection \<open>The conflict checker\<close>

text \<open>
  The loop of \<^verbatim>\<open>is_conflicting\<close> over \<^verbatim>\<open>other_events\<close>, with the parsed instants of the
  candidate: a cancelled event is skipped before its timestamps are read, the first overlap
  returns \<^verbatim>\<open>True\<close>, and a timestamp that does not parse raises.
\<close>

fun conflict_loop ::
  "(string \<Rightarrow> datetime option) \<Rightarrow> datetime \<Rightarrow> datetime \<Rightarrow> CalendarEvent list \<Rightarrow> error + bool"
where
  "conflict_loop fromisoformat event_start event_end [] = Inr False"
| "conflict_loop fromisoformat event_start event_end (other # other_events) =
     (if status other = ''cancelled''
      then conflict_loop fromisoformat event_start event_end other_events
      else case fromisoformat (start_time other) of
        None \<Rightarrow> Inl MalformedTimestamp
      | Some other_start \<Rightarrow>
          (case fromisoformat (end_time other) of
             None \<Rightarrow> Inl MalformedTimestamp
           | Some other_end \<Rightarrow>
               if event_start < other_end \<and> event_end > other_start then Inr True
               else conflict_loop fromisoformat event_start event_end other_events))"

definition is_conflicting ::
  "(string \<Rightarrow> datetime option) \<Rightarrow> CalendarEvent \<Rightarrow> CalendarEvent list \<Rightarrow> error + bool"
where
  "is_conflicting fromisoformat event other_events =
     (case fromisoformat (start_time event) of
        None \<Rightarrow> Inl MalformedTimestamp
      | Some event_start \<Rightarrow>
          (case fromisoformat (end_time event) of
             None \<Rightarrow> Inl MalformedTimestamp
           | Some event_end \<Rightarrow> conflict_loop fromisoformat event_start event_end other_events))"

subsection \<open>Creating an event\<close>

text \<open>
  \<^verbatim>\<open>create_event\<close> returns its result together with the storage it leaves: the storage is
  written only after the conflict check has returned \<^verbatim>\<open>False\<close>.
\<close>

definition create_event ::
  "(string \<Rightarrow> datetime option) \<Rightarrow> storage \<Rightarrow> CalendarEvent \<Rightarrow> (error + CalendarEvent) \<times> storage"
where
  "create_event fromisoformat db event =
     (let events = get_calendar_events db in
      case is_conflicting fromisoformat event events of
        Inl e \<Rightarrow> (Inl e, db)
      | Inr True \<Rightarrow> (Inl Conflict, db)
      | Inr False \<Rightarrow> (Inr event, save_calendar_events db (events @ [event])))"

subsection \<open>The slot finder\<close>

text \<open>
  The first loop of \<^verbatim>\<open>get_available_slots\<close>: both timestamps of every stored event are
  parsed, then an event off the target date or cancelled is skipped.
\<close>

fun collect_day_events ::
  "(string \<Rightarrow> datetime option) \<Rightarrow> date \<Rightarrow> CalendarEvent list \<Rightarrow> error + (datetime \<times> datetime) list"
where
  "collect_day_events fromisoformat target_date [] = Inr []"
| "collect_day_events fromisoformat target_date (event # all_events) =
     (case fromisoformat (start_time event) of
        None \<Rightarrow> Inl MalformedTimestamp
      | Some event_start \<Rightarrow>
          (case fromisoformat (end_time event) of
             None \<Rightarrow> Inl MalformedTimestamp
           | Some event_end \<Rightarrow>
               if date_of event_start \<noteq> target_date \<or> date_of event_end \<noteq> target_date
                  \<or> status event = ''cancelled''
               then collect_day_events fromisoformat target_date all_events
               else (case collect_day_events fromisoformat target_date all_events of
                       Inl e \<Rightarrow> Inl e
                     | Inr day_events \<Rightarrow> Inr ((event_start, event_end) # day_events))))"

text \<open>
  The emission loop, which the source writes four times with four bounds:
  \<^verbatim>\<open>
  while current_time + slot_duration <= bound:
      slot_end = current_time + slot_duration
      free_slots.append(TimeSlot(start=current_time, end=slot_end))
      current_time += slot_duration
  \<close>
  With a duration that is not positive the loop need not end, so the result is an
  \<open>option\<close>: \<open>None\<close> is a loop that runs forever.
\<close>

partial_function (option) emit_slots ::
  "timedelta \<Rightarrow> datetime \<Rightarrow> datetime \<Rightarrow> TimeSlot list \<Rightarrow> (error + TimeSlot list) option"
where
  "emit_slots slot_duration bound current_time free_slots =
     (case add_timedelta current_time slot_duration of
        Inl e \<Rightarrow> Some (Inl e)
      | Inr slot_end \<Rightarrow>
          if slot_end \<le> bound
          then emit_slots slot_duration bound slot_end
                 (free_slots @ [\<lparr>ts_start = current_time, ts_end = slot_end\<rparr>])
          else Some (Inr free_slots))"

declare emit_slots.simps [code]

text \<open>
  \<^verbatim>\<open>for i in range(len(occupied_slots) - 1)\<close>: one emission loop from the end of each
  busy interval to the start of the next one.
\<close>

fun between_events ::
  "timedelta \<Rightarrow> (datetime \<times> datetime) list \<Rightarrow> TimeSlot list \<Rightarrow> (error + TimeSlot list) option"
where
  "between_events slot_duration (occ # next_occ # occupied_slots) free_slots =
     (case emit_slots slot_duration (fst next_occ) (snd occ) free_slots of
        None \<Rightarrow> None
      | Some (Inl e) \<Rightarrow> Some (Inl e)
      | Some (Inr free_slots') \<Rightarrow>
          between_events slot_duration (next_occ # occupied_slots) free_slots')"
| "between_events slot_duration occupied_slots free_slots = Some (Inr free_slots)"

text \<open>The walk over the gaps, from the sorted busy intervals on.\<close>

definition walk_gaps ::
  "timedelta \<Rightarrow> datetime \<Rightarrow> datetime \<Rightarrow> (datetime \<times> datetime) list \<Rightarrow> (error + TimeSlot list) option"
where
  "walk_gaps slot_duration day_start day_end occupied_slots =
     (if occupied_slots = [] then emit_slots slot_duration day_end day_start []
      else
        case (if day_start < fst (hd occupied_slots)
              then emit_slots slot_duration (fst (hd occupied_slots)) day_start []
              else Some (Inr [])) of
          None \<Rightarrow> None
        | Some (Inl e) \<Rightarrow> Some (Inl e)
        | Some (Inr free_slots) \<Rightarrow>
            (case between_events slot_duration occupied_slots free_slots of
               None \<Rightarrow> None
             | Some (Inl e) \<Rightarrow> Some (Inl e)
             | Some (Inr free_slots') \<Rightarrow>
                 emit_slots slot_duration day_end (snd (last occupied_slots)) free_slots'))"

definition get_available_slots ::
  "(string \<Rightarrow> date option) \<Rightarrow> (string \<Rightarrow> datetime option) \<Rightarrow> storage \<Rightarrow> string \<Rightarrow> int
     \<Rightarrow> (error + TimeSlot list) option"
where
  "get_available_slots strptime fromisoformat db date_str minutes =
     (case strptime date_str of
        None \<Rightarrow> Some (Inl InvalidDate)
      | Some target_date \<Rightarrow>
          (let day_start = combine_hour target_date 9;
               day_end = combine_hour target_date 17
           in case collect_day_events fromisoformat target_date (get_calendar_events db) of
                Inl e \<Rightarrow> Some (Inl e)
              | Inr day_events \<Rightarrow>
                  (case timedelta_minutes minutes of
                     Inl e \<Rightarrow> Some (Inl e)
                   | Inr slot_duration \<Rightarrow>
                       walk_gaps slot_duration day_start day_end (sort_key fst day_events))))"

subsection \<open>The alternative-time suggester\<close>

definition suggest_alternative_times ::
  "(string \<Rightarrow> date option) \<Rightarrow> (string \<Rightarrow> datetime option) \<Rightarrow> storage \<Rightarrow> ScheduleRequest
     \<Rightarrow> (error + TimeSlot list) option"
where
  "suggest_alternative_times strptime fromisoformat db request =
     (case get_available_slots strptime fromisoformat db (date request) (duration_minutes request) of
        None \<Rightarrow> None
      | Some (Inl e) \<Rightarrow> Some (Inl e)
      | Some (Inr available_slots) \<Rightarrow>
          Some (Inr (take (min 3 (length available_slots)) available_slots)))"

subsection \<open>Concrete data\<close>

text \<open>
  The day 2025-04-15 has ordinal 739356. \<open>on_day h m\<close> is the instant \<open>h:m\<close> of that
  day. The two tables give, for the strings used in the examples, the values Python's
  parsers return on them; every other string is rejected. \<open>stored events\<close> is a storage
  that holds the events and whose read succeeds; \<open>unreadable events\<close> holds them too, and
  its read raises.
\<close>

definition day_2025_04_15 :: date where
  "day_2025_04_15 = 739356"

definition on_day :: "int \<Rightarrow> int \<Rightarrow> datetime" where
  "on_day h m = day_2025_04_15 * us_per_day + h * us_per_hour + m * us_per_minute"

definition py_strptime :: "string \<Rightarrow> date option" where
  "py_strptime = map_of [(''2025-04-15'', day_2025_04_15)]"

definition py_fromisoformat :: "string \<Rightarrow> datetime option" where
  "py_fromisoformat = map_of
     [(''2025-04-15T08:00:00'', on_day 8 0), (''2025-04-15T09:00:00'', on_day 9 0),
      (''2025-04-15T10:00:00'', on_day 10 0), (''2025-04-15T10:30:00'', on_day 10 30),
      (''2025-04-15T11:00:00'', on_day 11 0), (''2025-04-15T11:30:00'', on_day 11 30),
      (''2025-04-15T12:00:00'', on_day 12 0), (''2025-04-15T13:00:00'', on_day 13 0),
      (''2025-04-15T18:00:00'', on_day 18 0), (''2025-04-15T19:00:00'', on_day 19 0)]"

definition event_of :: "string \<Rightarrow> string \<Rightarrow> string \<Rightarrow> string \<Rightarrow> CalendarEvent" where
  "event_of i s e st =
     \<lparr>event_id = i, title = ''meeting'', description = None, start_time = s, end_time = e,
      is_all_day = False, status = st, source = ''manual'', meeting_request_id = None\<rparr>"

definition empty_storage :: storage where
  "empty_storage = \<lparr>json = Map.empty, get_raises = False\<rparr>"

definition stored :: "CalendarEvent list \<Rightarrow> storage" where
  "stored events = save_calendar_events empty_storage events"

definition unreadable :: "CalendarEvent list \<Rightarrow> storage" where
  "unreadable events = (stored events)\<lparr>get_raises := True\<rparr>"

definition slot :: "datetime \<Rightarrow> datetime \<Rightarrow> TimeSlot" where
  "slot s e = \<lparr>ts_start = s, ts_end = e\<rparr>"

section \<open>Properties\<close>

subsection \<open>The emission loop\<close>

lemma add_timedelta_Inr: "add_timedelta t d = Inr r \<Longrightarrow> r = t + d"
  by (simp add: add_timedelta_def split: if_splits)

lemma add_timedelta_Inl: "add_timedelta t d = Inl e \<Longrightarrow> e = OverflowError"
  by (simp add: add_timedelta_def split: if_splits)

text \<open>
  What the loop returns when it returns, for every duration: the slots it had, followed by
  new slots of the requested length that end at or before the bound; with a duration that
  is not negative the new slots start at or after the starting instant and follow one
  another.
\<close>

lemma emit_slots_partial:
  assumes "emit_slots slot_duration bound current_time free_slots = Some r"
  shows "case r of
           Inl e \<Rightarrow> e = OverflowError
         | Inr out \<Rightarrow> \<exists>new. out = free_slots @ new
             \<and> (\<forall>s \<in> set new. ts_end s = ts_start s + slot_duration \<and> ts_end s \<le> bound
                   \<and> (0 \<le> slot_duration \<longrightarrow> current_time \<le> ts_start s))
             \<and> (0 \<le> slot_duration \<longrightarrow> sorted_wrt (\<lambda>a b. ts_end a \<le> ts_start b) new)"
proof (rule emit_slots.raw_induct [OF _ assms], goal_cases)
  case (1 emit slot_duration bound current_time free_slots r)
  note IH = 1(1) and eq = 1(2)
  show ?case
  proof (cases "add_timedelta current_time slot_duration")
    case (Inl e)
    with eq add_timedelta_Inl [OF Inl] show ?thesis by auto
  next
    case (Inr se)
    note se = add_timedelta_Inr [OF Inr]
    show ?thesis
    proof (cases "se \<le> bound")
      case False
      with eq Inr show ?thesis by auto
    next
      case True
      with eq Inr have rec: "emit slot_duration bound se
          (free_slots @ [\<lparr>ts_start = current_time, ts_end = se\<rparr>]) = Some r" by simp
      show ?thesis
      proof (cases r)
        case (Inl e)
        with IH [OF rec] show ?thesis by simp
      next
        case (Inr out)
        with IH [OF rec] obtain new
          where new: "out = (free_slots @ [\<lparr>ts_start = current_time, ts_end = se\<rparr>]) @ new"
          and all: "\<forall>s \<in> set new. ts_end s = ts_start s + slot_duration \<and> ts_end s \<le> bound
                   \<and> (0 \<le> slot_duration \<longrightarrow> se \<le> ts_start s)"
          and srt: "0 \<le> slot_duration \<longrightarrow> sorted_wrt (\<lambda>a b. ts_end a \<le> ts_start b) new"
          by auto
        let ?new = "\<lparr>ts_start = current_time, ts_end = se\<rparr> # new"
        have "out = free_slots @ ?new" using new by simp
        moreover have "\<forall>s \<in> set ?new. ts_end s = ts_start s + slot_duration \<and> ts_end s \<le> bound
                   \<and> (0 \<le> slot_duration \<longrightarrow> current_time \<le> ts_start s)"
          using all se True by auto
        moreover have "0 \<le> slot_duration \<longrightarrow> sorted_wrt (\<lambda>a b. ts_end a \<le> ts_start b) ?new"
          using all srt by auto
        ultimately have "\<exists>new. out = free_slots @ new
             \<and> (\<forall>s \<in> set new. ts_end s = ts_start s + slot_duration \<and> ts_end s \<le> bound
                   \<and> (0 \<le> slot_duration \<longrightarrow> current_time \<le> ts_start s))
             \<and> (0 \<le> slot_duration \<longrightarrow> sorted_wrt (\<lambda>a b. ts_end a \<le> ts_start b) new)"
          by blast
        then show ?thesis using Inr by simp
      qed
    qed
  qed
qed

text \<open>With a positive duration the loop ends: the distance to the bound shrinks.\<close>

lemma emit_slots_total:
  assumes "0 < slot_duration"
  shows "\<exists>r. emit_slots slot_duration bound current_time free_slots = Some r"
proof (induction "nat (bound - current_time)" arbitrary: current_time free_slots rule: less_induct)
  case less
  show ?case
  proof (cases "add_timedelta current_time slot_duration")
    case (Inl e)
    then show ?thesis by (subst emit_slots.simps) simp
  next
    case (Inr se)
    note se = add_timedelta_Inr [OF Inr]
    show ?thesis
    proof (cases "se \<le> bound")
      case False
      with Inr show ?thesis by (subst emit_slots.simps) simp
    next
      case True
      with se assms have "nat (bound - se) < nat (bound - current_time)" by simp
      from less [OF this] obtain r where
        "emit_slots slot_duration bound se
           (free_slots @ [\<lparr>ts_start = current_time, ts_end = se\<rparr>]) = Some r"
        by blast
      with Inr True show ?thesis by (subst emit_slots.simps) simp
    qed
  qed
qed

subsection \<open>The walk over the gaps\<close>

lemma between_events_total:
  "0 < slot_duration \<Longrightarrow> \<exists>r. between_events slot_duration occupied_slots free_slots = Some r"
proof (induction slot_duration occupied_slots free_slots rule: between_events.induct)
  case (1 slot_duration occ next_occ occupied_slots free_slots)
  from emit_slots_total [OF "1.prems"] obtain r
    where r: "emit_slots slot_duration (fst next_occ) (snd occ) free_slots = Some r" by blast
  show ?case
  proof (cases r)
    case (Inl e)
    with r show ?thesis by simp
  next
    case (Inr free_slots')
    with r "1.IH" [OF r Inr "1.prems"] show ?thesis by simp
  qed
qed simp_all

lemma between_events_partial:
  "between_events slot_duration occupied_slots free_slots = Some (Inl e) \<Longrightarrow> e = OverflowError"
proof (induction slot_duration occupied_slots free_slots rule: between_events.induct)
  case (1 slot_duration occ next_occ occupied_slots free_slots)
  show ?case
  proof (cases "emit_slots slot_duration (fst next_occ) (snd occ) free_slots")
    case None
    with "1.prems" show ?thesis by simp
  next
    case (Some r)
    show ?thesis
    proof (cases r)
      case (Inl e')
      with Some "1.prems" emit_slots_partial [OF Some] show ?thesis by simp
    next
      case (Inr free_slots')
      with Some "1.prems" "1.IH" [OF Some Inr] show ?thesis by simp
    qed
  qed
qed simp_all

lemma walk_gaps_total:
  assumes "0 < slot_duration"
  shows "\<exists>r. walk_gaps slot_duration day_start day_end occupied_slots = Some r"
proof (cases "occupied_slots = []")
  case True
  with emit_slots_total [OF assms] show ?thesis by (simp add: walk_gaps_def)
next
  case False
  have "\<exists>r1. (if day_start < fst (hd occupied_slots)
              then emit_slots slot_duration (fst (hd occupied_slots)) day_start []
              else Some (Inr [])) = Some r1"
    using emit_slots_total [OF assms, of "fst (hd occupied_slots)" day_start "[]"] by simp
  then obtain r1 where r1: "(if day_start < fst (hd occupied_slots)
              then emit_slots slot_duration (fst (hd occupied_slots)) day_start []
              else Some (Inr [])) = Some r1" ..
  show ?thesis
  proof (cases r1)
    case (Inl e)
    with r1 False show ?thesis by (simp add: walk_gaps_def)
  next
    case (Inr fs1)
    obtain r2 where r2: "between_events slot_duration occupied_slots fs1 = Some r2"
      using between_events_total [OF assms] by blast
    show ?thesis
    proof (cases r2)
      case (Inl e)
      with r1 r2 Inr False show ?thesis by (simp add: walk_gaps_def)
    next
      case (Inr fs2)
      with r1 r2 \<open>r1 = Inr fs1\<close> False emit_slots_total [OF assms, of day_end "snd (last occupied_slots)" fs2]
      show ?thesis by (simp add: walk_gaps_def)
    qed
  qed
qed

lemma walk_gaps_error:
  assumes "walk_gaps slot_duration day_start day_end occupied_slots = Some (Inl e)"
  shows "e = OverflowError"
proof (cases "occupied_slots = []")
  case True
  with assms have "emit_slots slot_duration day_end day_start [] = Some (Inl e)"
    by (simp add: walk_gaps_def)
  from emit_slots_partial [OF this] show ?thesis by simp
next
  case False
  let ?first = "if day_start < fst (hd occupied_slots)
              then emit_slots slot_duration (fst (hd occupied_slots)) day_start []
              else Some (Inr [])"
  from assms False obtain r1 where r1: "?first = Some r1"
    by (cases ?first) (simp_all add: walk_gaps_def)
  show ?thesis
  proof (cases r1)
    case (Inl e1)
    with r1 assms False have "e1 = e" by (simp add: walk_gaps_def)
    moreover from r1 Inl have "emit_slots slot_duration (fst (hd occupied_slots)) day_start [] = Some (Inl e1)"
      by (simp split: if_splits)
    from emit_slots_partial [OF this] have "e1 = OverflowError" by simp
    ultimately show ?thesis by simp
  next
    case (Inr fs1)
    with r1 assms False obtain r2 where r2: "between_events slot_duration occupied_slots fs1 = Some r2"
      by (cases "between_events slot_duration occupied_slots fs1") (simp_all add: walk_gaps_def)
    show ?thesis
    proof (cases r2)
      case (Inl e2)
      with r1 r2 Inr assms False have "e2 = e" by (simp add: walk_gaps_def)
      with between_events_partial r2 Inl show ?thesis by blast
    next
      case (Inr fs2)
      with r1 r2 \<open>r1 = Inr fs1\<close> assms False
      have "emit_slots slot_duration day_end (snd (last occupied_slots)) fs2 = Some (Inl e)"
        by (simp add: walk_gaps_def)
      from emit_slots_partial [OF this] show ?thesis by simp
    qed
  qed
qed

lemma collect_day_events_error:
  "collect_day_events fromisoformat target_date all_events = Inl e \<Longrightarrow> e = MalformedTimestamp"
  by (induction all_events) (auto split: option.splits if_splits sum.splits)

lemma timedelta_minutes_error: "timedelta_minutes m = Inl e \<Longrightarrow> e = OverflowError"
  by (simp add: timedelta_minutes_def split: if_splits)

lemma timedelta_minutes_pos: "0 < m \<Longrightarrow> timedelta_minutes m = Inr d \<Longrightarrow> 0 < d"
  by (auto simp add: timedelta_minutes_def us_per_minute_def split: if_splits)

text \<open>
  The failures of the slot finder: the date that does not parse, a stored timestamp that
  does not parse, or a date out of range in the arithmetic.
\<close>

lemma get_available_slots_error:
  assumes "get_available_slots strptime fromisoformat db date_str minutes = Some (Inl e)"
  shows "(e = InvalidDate \<and> strptime date_str = None)
       \<or> (strptime date_str \<noteq> None \<and> (e = MalformedTimestamp \<or> e = OverflowError))"
proof (cases "strptime date_str")
  case None
  with assms show ?thesis by (simp add: get_available_slots_def)
next
  case (Some target_date)
  show ?thesis
  proof (cases "collect_day_events fromisoformat target_date (get_calendar_events db)")
    case (Inl e1)
    with assms Some collect_day_events_error [OF Inl] show ?thesis
      by (simp add: get_available_slots_def)
  next
    case (Inr day_events)
    show ?thesis
    proof (cases "timedelta_minutes minutes")
      case (Inl e2)
      with assms Some Inr timedelta_minutes_error [OF Inl] show ?thesis
        by (simp add: get_available_slots_def)
    next
      case (Inr slot_duration)
      with assms Some \<open>collect_day_events fromisoformat target_date (get_calendar_events db) = Inr day_events\<close>
      have "walk_gaps slot_duration (combine_hour target_date 9) (combine_hour target_date 17)
              (sort_key fst day_events) = Some (Inl e)"
        by (simp add: get_available_slots_def)
      from walk_gaps_error [OF this] Some show ?thesis by simp
    qed
  qed
qed

subsection \<open>The concrete data\<close>

lemma py_fromisoformat_simps:
  "py_fromisoformat ''2025-04-15T08:00:00'' = Some (on_day 8 0)"
  "py_fromisoformat ''2025-04-15T09:00:00'' = Some (on_day 9 0)"
  "py_fromisoformat ''2025-04-15T10:00:00'' = Some (on_day 10 0)"
  "py_fromisoformat ''2025-04-15T10:30:00'' = Some (on_day 10 30)"
  "py_fromisoformat ''2025-04-15T11:00:00'' = Some (on_day 11 0)"
  "py_fromisoformat ''2025-04-15T11:30:00'' = Some (on_day 11 30)"
  "py_fromisoformat ''2025-04-15T12:00:00'' = Some (on_day 12 0)"
  "py_fromisoformat ''2025-04-15T13:00:00'' = Some (on_day 13 0)"
  "py_fromisoformat ''2025-04-15T18:00:00'' = Some (on_day 18 0)"
  "py_fromisoformat ''2025-04-15T19:00:00'' = Some (on_day 19 0)"
  "py_fromisoformat ''next tuesday'' = None"
  by (simp_all add: py_fromisoformat_def)

lemmas on_day_defs = on_day_def us_per_day_def us_per_hour_def us_per_minute_def day_2025_04_15_def

lemma get_save_calendar_events:
  "get_calendar_events (save_calendar_events db events) = (if get_raises db then [] else events)"
  by (simp add: get_calendar_events_def save_calendar_events_def json_get_def json_put_def)

lemma get_stored: "get_calendar_events (stored events) = events"
  by (simp add: stored_def get_save_calendar_events empty_storage_def)

lemma get_unreadable: "get_calendar_events (unreadable events) = []"
  by (simp add: unreadable_def get_calendar_events_def json_get_def)

subsection \<open>The conflict checker\<close>

text \<open>
  When every event of the list that is not cancelled has timestamps that parse, the loop
  returns whether one of them overlaps the candidate.
\<close>

lemma conflict_loop_iff:
  assumes "\<forall>other \<in> set other_events. status other \<noteq> ''cancelled'' \<longrightarrow>
             fromisoformat (start_time other) \<noteq> None \<and> fromisoformat (end_time other) \<noteq> None"
  shows "conflict_loop fromisoformat event_start event_end other_events =
           Inr (\<exists>other \<in> set other_events. status other \<noteq> ''cancelled'' \<and>
                  (\<exists>other_start other_end.
                     fromisoformat (start_time other) = Some other_start \<and>
                     fromisoformat (end_time other) = Some other_end \<and>
                     event_start < other_end \<and> event_end > other_start))"
  using assms
proof (induction other_events)
  case Nil
  then show ?case by simp
next
  case (Cons other other_events)
  then show ?case by (auto split: option.splits)
qed

text \<open>
  The loop raises at an event that is not cancelled and does not parse, once it has passed
  the events before it: each of them cancelled, or parsed and free of overlap.
\<close>

lemma conflict_loop_reaches_malformed:
  assumes "\<forall>b \<in> set before. status b = ''cancelled'' \<or>
             (\<exists>bs be. fromisoformat (start_time b) = Some bs \<and> fromisoformat (end_time b) = Some be
                \<and> \<not> (event_start < be \<and> event_end > bs))"
    and "status other \<noteq> ''cancelled''"
    and "fromisoformat (start_time other) = None \<or> fromisoformat (end_time other) = None"
  shows "conflict_loop fromisoformat event_start event_end (before @ other # after) = Inl MalformedTimestamp"
  using assms
proof (induction before)
  case Nil
  then show ?case by (auto split: option.splits)
next
  case (Cons b before)
  then show ?case by (auto split: option.splits)
qed

text \<open>Conversely, the loop raises only so.\<close>

lemma conflict_loop_error:
  "conflict_loop fromisoformat event_start event_end other_events = Inl e \<Longrightarrow>
     e = MalformedTimestamp \<and>
     (\<exists>before other after. other_events = before @ other # after \<and>
        (\<forall>b \<in> set before. status b = ''cancelled'' \<or>
             (\<exists>bs be. fromisoformat (start_time b) = Some bs \<and> fromisoformat (end_time b) = Some be
                \<and> \<not> (event_start < be \<and> event_end > bs))) \<and>
        status other \<noteq> ''cancelled'' \<and>
        (fromisoformat (start_time other) = None \<or> fromisoformat (end_time other) = None))"
proof (induction other_events)
  case Nil
  then show ?case by simp
next
  case (Cons x xs)
  let ?skip = "\<lambda>b. status b = ''cancelled'' \<or>
             (\<exists>bs be. fromisoformat (start_time b) = Some bs \<and> fromisoformat (end_time b) = Some be
                \<and> \<not> (event_start < be \<and> event_end > bs))"
  let ?bad = "\<lambda>other. status other \<noteq> ''cancelled'' \<and>
        (fromisoformat (start_time other) = None \<or> fromisoformat (end_time other) = None)"
  show ?case
  proof (cases "?bad x")
    case True
    with Cons.prems have "e = MalformedTimestamp" by (auto split: option.splits)
    moreover have "x # xs = [] @ x # xs \<and> (\<forall>b \<in> set []. ?skip b) \<and> ?bad x" using True by simp
    ultimately show ?thesis by blast
  next
    case False
    with Cons.prems have rec: "conflict_loop fromisoformat event_start event_end xs = Inl e"
      and skip: "?skip x"
      by (auto split: option.splits if_splits)
    from Cons.IH [OF rec] obtain before other after where e: "e = MalformedTimestamp"
      and xs: "xs = before @ other # after" and b: "\<forall>b \<in> set before. ?skip b" and o: "?bad other"
      by blast
    have "x # xs = (x # before) @ other # after \<and> (\<forall>b \<in> set (x # before). ?skip b) \<and> ?bad other"
      using xs b o skip by simp
    with e show ?thesis by blast
  qed
qed

text \<open>The loop returns \<^verbatim>\<open>False\<close> exactly when it has read every event that is not
  cancelled and none overlaps.\<close>

lemma conflict_loop_false_iff:
  "conflict_loop fromisoformat event_start event_end other_events = Inr False \<longleftrightarrow>
     (\<forall>other \<in> set other_events. status other \<noteq> ''cancelled'' \<longrightarrow>
        (\<exists>other_start other_end.
           fromisoformat (start_time other) = Some other_start \<and>
           fromisoformat (end_time other) = Some other_end \<and>
           \<not> (event_start < other_end \<and> event_end > other_start)))"
  by (induction other_events) (auto split: option.splits)

text \<open>
  The loop returns \<^verbatim>\<open>True\<close> at an overlapping event that is not cancelled, when the
  events before it that are not cancelled have timestamps that parse; and only so.
\<close>

lemma conflict_loop_finds_overlap:
  assumes "\<forall>b \<in> set before. status b \<noteq> ''cancelled'' \<longrightarrow>
             fromisoformat (start_time b) \<noteq> None \<and> fromisoformat (end_time b) \<noteq> None"
    and "status other \<noteq> ''cancelled''"
    and "fromisoformat (start_time other) = Some other_start"
    and "fromisoformat (end_time other) = Some other_end"
    and "event_start < other_end \<and> event_end > other_start"
  shows "conflict_loop fromisoformat event_start event_end (before @ other # after) = Inr True"
  using assms
proof (induction before)
  case Nil
  then show ?case by simp
next
  case (Cons b before)
  then show ?case by (auto split: option.splits)
qed

lemma conflict_loop_true_only:
  assumes "conflict_loop fromisoformat event_start event_end other_events = Inr True"
  shows "\<exists>before other after. other_events = before @ other # after
           \<and> (\<forall>b \<in> set before. status b \<noteq> ''cancelled'' \<longrightarrow>
                 fromisoformat (start_time b) \<noteq> None \<and> fromisoformat (end_time b) \<noteq> None)
           \<and> status other \<noteq> ''cancelled''
           \<and> (\<exists>other_start other_end.
                 fromisoformat (start_time other) = Some other_start \<and>
                 fromisoformat (end_time other) = Some other_end \<and>
                 event_start < other_end \<and> event_end > other_start)"
  using assms
proof (induction other_events)
  case Nil
  then show ?case by simp
next
  case (Cons x xs)
  let ?parses = "\<lambda>b. status b \<noteq> ''cancelled'' \<longrightarrow>
                 fromisoformat (start_time b) \<noteq> None \<and> fromisoformat (end_time b) \<noteq> None"
  let ?hit = "\<lambda>other. status other \<noteq> ''cancelled''
           \<and> (\<exists>other_start other_end.
                 fromisoformat (start_time other) = Some other_start \<and>
                 fromisoformat (end_time other) = Some other_end \<and>
                 event_start < other_end \<and> event_end > other_start)"
  show ?case
  proof (cases "?hit x")
    case True
    then have "x # xs = [] @ x # xs \<and> (\<forall>b \<in> set []. ?parses b) \<and> ?hit x" by simp
    then show ?thesis by blast
  next
    case False
    with Cons.prems have rec: "conflict_loop fromisoformat event_start event_end xs = Inr True"
      and px: "?parses x"
      by (auto split: option.splits if_splits)
    from Cons.IH [OF rec] obtain before other after where xs: "xs = before @ other # after"
      and b: "\<forall>b \<in> set before. ?parses b" and o: "?hit other"
      by blast
    have "x # xs = (x # before) @ other # after \<and> (\<forall>b \<in> set (x # before). ?parses b) \<and> ?hit other"
      using xs b o px by simp
    then show ?thesis by blast
  qed
qed

text \<open>
  Claim C4, as amended. For a candidate whose timestamps parse and every list of other
  events, \<^verbatim>\<open>is_conflicting\<close> returns \<^verbatim>\<open>True\<close> exactly when some other event that is not
  cancelled satisfies \<open>candidate.start < other.end\<close> and \<open>candidate.end > other.start\<close> and
  the timestamps of the events before it that are not cancelled parse. It returns
  \<^verbatim>\<open>False\<close> exactly when the timestamps of every other event that is not cancelled
  parse and none of them satisfies the two strict comparisons; so touching endpoints are no
  conflict. Otherwise the call fails.
\<close>

theorem is_conflicting_characterised:
  assumes "fromisoformat (start_time event) = Some event_start"
    and "fromisoformat (end_time event) = Some event_end"
  shows "(is_conflicting fromisoformat event other_events = Inr True \<longleftrightarrow>
            (\<exists>before other after. other_events = before @ other # after
               \<and> (\<forall>b \<in> set before. status b \<noteq> ''cancelled'' \<longrightarrow>
                     fromisoformat (start_time b) \<noteq> None \<and> fromisoformat (end_time b) \<noteq> None)
               \<and> status other \<noteq> ''cancelled''
               \<and> (\<exists>other_start other_end.
                     fromisoformat (start_time other) = Some other_start \<and>
                     fromisoformat (end_time other) = Some other_end \<and>
                     event_start < other_end \<and> event_end > other_start)))
       \<and> (is_conflicting fromisoformat event other_events = Inr False \<longleftrightarrow>
            (\<forall>other \<in> set other_events. status other \<noteq> ''cancelled'' \<longrightarrow>
               (\<exists>other_start other_end.
                  fromisoformat (start_time other) = Some other_start \<and>
                  fromisoformat (end_time other) = Some other_end \<and>
                  \<not> (event_start < other_end \<and> event_end > other_start))))"
proof -
  have eq: "is_conflicting fromisoformat event other_events
              = conflict_loop fromisoformat event_start event_end other_events"
    using assms by (simp add: is_conflicting_def)
  show ?thesis
    unfolding eq
  proof (intro conjI iffI)
    assume "conflict_loop fromisoformat event_start event_end other_events = Inr True"
    from conflict_loop_true_only [OF this]
    show "\<exists>before other after. other_events = before @ other # after
               \<and> (\<forall>b \<in> set before. status b \<noteq> ''cancelled'' \<longrightarrow>
                     fromisoformat (start_time b) \<noteq> None \<and> fromisoformat (end_time b) \<noteq> None)
               \<and> status other \<noteq> ''cancelled''
               \<and> (\<exists>other_start other_end.
                     fromisoformat (start_time other) = Some other_start \<and>
                     fromisoformat (end_time other) = Some other_end \<and>
                     event_start < other_end \<and> event_end > other_start)" .
  next
    assume "\<exists>before other after. other_events = before @ other # after
               \<and> (\<forall>b \<in> set before. status b \<noteq> ''cancelled'' \<longrightarrow>
                     fromisoformat (start_time b) \<noteq> None \<and> fromisoformat (end_time b) \<noteq> None)
               \<and> status other \<noteq> ''cancelled''
               \<and> (\<exists>other_start other_end.
                     fromisoformat (start_time other) = Some other_start \<and>
                     fromisoformat (end_time other) = Some other_end \<and>
                     event_start < other_end \<and> event_end > other_start)"
    then obtain before other after other_start other_end
      where "other_events = before @ other # after"
        and "\<forall>b \<in> set before. status b \<noteq> ''cancelled'' \<longrightarrow>
                     fromisoformat (start_time b) \<noteq> None \<and> fromisoformat (end_time b) \<noteq> None"
        and "status other \<noteq> ''cancelled''"
        and "fromisoformat (start_time other) = Some other_start"
        and "fromisoformat (end_time other) = Some other_end"
        and "event_start < other_end \<and> event_end > other_start"
      by blast
    with conflict_loop_finds_overlap [of before fromisoformat other other_start other_end
        event_start event_end after]
    show "conflict_loop fromisoformat event_start event_end other_events = Inr True" by simp
  qed (simp_all add: conflict_loop_false_iff)
qed

text \<open>
  At 10:00-11:00: an event that touches and a cancelled event that does not parse, followed
  by a confirmed 10:30-11:30, give a conflict, whatever comes after; two events that touch
  and a cancelled 10:30-11:30 give none.
\<close>

theorem is_conflicting_characterised_witness:
  "is_conflicting py_fromisoformat
     (event_of ''new'' ''2025-04-15T10:00:00'' ''2025-04-15T11:00:00'' ''confirmed'')
     ([event_of ''a'' ''2025-04-15T09:00:00'' ''2025-04-15T10:00:00'' ''confirmed'',
       event_of ''c'' ''next tuesday'' ''next tuesday'' ''cancelled'']
      @ event_of ''d'' ''2025-04-15T10:30:00'' ''2025-04-15T11:30:00'' ''confirmed''
      # [event_of ''e'' ''2025-04-15T12:00:00'' ''next tuesday'' ''confirmed''])
   = Inr True
   \<and> is_conflicting py_fromisoformat
     (event_of ''new'' ''2025-04-15T10:00:00'' ''2025-04-15T11:00:00'' ''confirmed'')
     [event_of ''a'' ''2025-04-15T09:00:00'' ''2025-04-15T10:00:00'' ''confirmed'',
      event_of ''b'' ''2025-04-15T11:00:00'' ''2025-04-15T12:00:00'' ''tentative'',
      event_of ''c'' ''2025-04-15T10:30:00'' ''2025-04-15T11:30:00'' ''cancelled'']
   = Inr False"
proof -
  let ?new = "event_of ''new'' ''2025-04-15T10:00:00'' ''2025-04-15T11:00:00'' ''confirmed''"
  let ?before = "[event_of ''a'' ''2025-04-15T09:00:00'' ''2025-04-15T10:00:00'' ''confirmed'',
       event_of ''c'' ''next tuesday'' ''next tuesday'' ''cancelled'']"
  let ?d = "event_of ''d'' ''2025-04-15T10:30:00'' ''2025-04-15T11:30:00'' ''confirmed''"
  let ?after = "[event_of ''e'' ''2025-04-15T12:00:00'' ''next tuesday'' ''confirmed'']"
  let ?others2 = "[event_of ''a'' ''2025-04-15T09:00:00'' ''2025-04-15T10:00:00'' ''confirmed'',
      event_of ''b'' ''2025-04-15T11:00:00'' ''2025-04-15T12:00:00'' ''tentative'',
      event_of ''c'' ''2025-04-15T10:30:00'' ''2025-04-15T11:30:00'' ''cancelled'']"
  have s: "py_fromisoformat (start_time ?new) = Some (on_day 10 0)"
    by (simp add: py_fromisoformat_simps event_of_def)
  have e: "py_fromisoformat (end_time ?new) = Some (on_day 11 0)"
    by (simp add: py_fromisoformat_simps event_of_def)
  have hit: "?before @ ?d # ?after = ?before @ ?d # ?after
       \<and> (\<forall>b \<in> set ?before. status b \<noteq> ''cancelled'' \<longrightarrow>
             py_fromisoformat (start_time b) \<noteq> None \<and> py_fromisoformat (end_time b) \<noteq> None)
       \<and> status ?d \<noteq> ''cancelled''
       \<and> (\<exists>other_start other_end.
             py_fromisoformat (start_time ?d) = Some other_start \<and>
             py_fromisoformat (end_time ?d) = Some other_end \<and>
             on_day 10 0 < other_end \<and> on_day 11 0 > other_start)"
    by (simp add: py_fromisoformat_simps event_of_def on_day_defs)
  have none: "\<forall>other \<in> set ?others2. status other \<noteq> ''cancelled'' \<longrightarrow>
       (\<exists>other_start other_end.
          py_fromisoformat (start_time other) = Some other_start \<and>
          py_fromisoformat (end_time other) = Some other_end \<and>
          \<not> (on_day 10 0 < other_end \<and> on_day 11 0 > other_start))"
    by (simp add: py_fromisoformat_simps event_of_def on_day_defs)
  from hit have "\<exists>before other after. ?before @ ?d # ?after = before @ other # after
       \<and> (\<forall>b \<in> set before. status b \<noteq> ''cancelled'' \<longrightarrow>
             py_fromisoformat (start_time b) \<noteq> None \<and> py_fromisoformat (end_time b) \<noteq> None)
       \<and> status other \<noteq> ''cancelled''
       \<and> (\<exists>other_start other_end.
             py_fromisoformat (start_time other) = Some other_start \<and>
             py_fromisoformat (end_time other) = Some other_end \<and>
             on_day 10 0 < other_end \<and> on_day 11 0 > other_start)"
    by blast
  with is_conflicting_characterised [OF s e, of "?before @ ?d # ?after", THEN conjunct1]
  have "is_conflicting py_fromisoformat ?new (?before @ ?d # ?after) = Inr True" by (rule iffD2)
  moreover from none is_conflicting_characterised [OF s e, of ?others2, THEN conjunct2]
  have "is_conflicting py_fromisoformat ?new ?others2 = Inr False" by (rule rev_iffD2)
  ultimately show ?thesis by (rule conjI)
qed

text \<open>
  Without the condition on the events before, the equivalence fails: 10:30-11:30 is not
  cancelled and overlaps the candidate 10:00-11:00, and the call does not return
  \<^verbatim>\<open>True\<close>, since the event before it has an end that does not parse.
\<close>

theorem is_conflicting_counterexample:
  "py_fromisoformat (start_time (event_of ''new'' ''2025-04-15T10:00:00'' ''2025-04-15T11:00:00'' ''confirmed''))
     = Some (on_day 10 0)
   \<and> py_fromisoformat (end_time (event_of ''new'' ''2025-04-15T10:00:00'' ''2025-04-15T11:00:00'' ''confirmed''))
     = Some (on_day 11 0)
   \<and> status (event_of ''c'' ''2025-04-15T10:30:00'' ''2025-04-15T11:30:00'' ''confirmed'') \<noteq> ''cancelled''
   \<and> py_fromisoformat (start_time (event_of ''c'' ''2025-04-15T10:30:00'' ''2025-04-15T11:30:00'' ''confirmed''))
     = Some (on_day 10 30)
   \<and> py_fromisoformat (end_time (event_of ''c'' ''2025-04-15T10:30:00'' ''2025-04-15T11:30:00'' ''confirmed''))
     = Some (on_day 11 30)
   \<and> on_day 10 0 < on_day 11 30 \<and> on_day 11 0 > on_day 10 30
   \<and> is_conflicting py_fromisoformat
       (event_of ''new'' ''2025-04-15T10:00:00'' ''2025-04-15T11:00:00'' ''confirmed'')
       [event_of ''a'' ''2025-04-15T09:00:00'' ''2025-04-15T10:00:00'' ''confirmed'',
        event_of ''b'' ''2025-04-15T10:30:00'' ''next tuesday'' ''confirmed'',
        event_of ''c'' ''2025-04-15T10:30:00'' ''2025-04-15T11:30:00'' ''confirmed'']
     = Inl MalformedTimestamp"
  by (simp add: is_conflicting_def py_fromisoformat_simps event_of_def on_day_defs)

text \<open>
  When every other event that is not cancelled has timestamps that parse, the result is
  whether one of them overlaps the candidate.
\<close>

lemma is_conflicting_when_others_parse:
  assumes "fromisoformat (start_time event) = Some event_start"
    and "fromisoformat (end_time event) = Some event_end"
    and "\<forall>other \<in> set other_events. status other \<noteq> ''cancelled'' \<longrightarrow>
             fromisoformat (start_time other) \<noteq> None \<and> fromisoformat (end_time other) \<noteq> None"
  shows "is_conflicting fromisoformat event other_events =
           Inr (\<exists>other \<in> set other_events. status other \<noteq> ''cancelled'' \<and>
                  (\<exists>other_start other_end.
                     fromisoformat (start_time other) = Some other_start \<and>
                     fromisoformat (end_time other) = Some other_end \<and>
                     event_start < other_end \<and> event_end > other_start))"
  using assms(1,2) conflict_loop_iff [OF assms(3)] by (simp add: is_conflicting_def)

text \<open>
  Claim C6, as amended. \<^verbatim>\<open>is_conflicting\<close> fails with the error of an unparsable
  timestamp when a timestamp of the candidate does not parse, and when the loop reaches an
  event that is not cancelled and has a timestamp that does not parse: every event before it
  is cancelled, or parses and does not overlap the candidate.
\<close>

theorem malformed_timestamp_fails:
  "(fromisoformat (start_time event) = None \<or> fromisoformat (end_time event) = None
      \<longrightarrow> is_conflicting fromisoformat event other_events = Inl MalformedTimestamp)
   \<and> (fromisoformat (start_time event) = Some event_start
        \<and> fromisoformat (end_time event) = Some event_end
        \<and> (\<forall>b \<in> set before. status b = ''cancelled'' \<or>
             (\<exists>bs be. fromisoformat (start_time b) = Some bs \<and> fromisoformat (end_time b) = Some be
                \<and> \<not> (event_start < be \<and> event_end > bs)))
        \<and> status other \<noteq> ''cancelled''
        \<and> (fromisoformat (start_time other) = None \<or> fromisoformat (end_time other) = None)
      \<longrightarrow> is_conflicting fromisoformat event (before @ other # after) = Inl MalformedTimestamp)"
proof (intro conjI impI)
  assume "fromisoformat (start_time event) = None \<or> fromisoformat (end_time event) = None"
  then show "is_conflicting fromisoformat event other_events = Inl MalformedTimestamp"
    by (auto simp add: is_conflicting_def split: option.splits)
next
  assume a: "fromisoformat (start_time event) = Some event_start
        \<and> fromisoformat (end_time event) = Some event_end
        \<and> (\<forall>b \<in> set before. status b = ''cancelled'' \<or>
             (\<exists>bs be. fromisoformat (start_time b) = Some bs \<and> fromisoformat (end_time b) = Some be
                \<and> \<not> (event_start < be \<and> event_end > bs)))
        \<and> status other \<noteq> ''cancelled''
        \<and> (fromisoformat (start_time other) = None \<or> fromisoformat (end_time other) = None)"
  then have "conflict_loop fromisoformat event_start event_end (before @ other # after)
               = Inl MalformedTimestamp"
    by (intro conflict_loop_reaches_malformed) simp_all
  with a show "is_conflicting fromisoformat event (before @ other # after) = Inl MalformedTimestamp"
    by (simp add: is_conflicting_def)
qed

text \<open>
  A candidate with an unparsable start fails; so does a valid candidate against a list
  whose second event, reached after an event that only touches, has an unparsable end.
\<close>

theorem malformed_timestamp_fails_witness:
  "is_conflicting py_fromisoformat
     (event_of ''new'' ''next tuesday'' ''2025-04-15T11:00:00'' ''confirmed'') [] = Inl MalformedTimestamp
   \<and> is_conflicting py_fromisoformat
     (event_of ''new'' ''2025-04-15T10:00:00'' ''2025-04-15T11:00:00'' ''confirmed'')
     ([event_of ''a'' ''2025-04-15T09:00:00'' ''2025-04-15T10:00:00'' ''confirmed'']
       @ event_of ''b'' ''2025-04-15T10:30:00'' ''next tuesday'' ''confirmed''
       # [event_of ''c'' ''2025-04-15T10:30:00'' ''2025-04-15T11:30:00'' ''confirmed''])
     = Inl MalformedTimestamp"
proof -
  let ?bad = "event_of ''new'' ''next tuesday'' ''2025-04-15T11:00:00'' ''confirmed''"
  let ?new = "event_of ''new'' ''2025-04-15T10:00:00'' ''2025-04-15T11:00:00'' ''confirmed''"
  let ?before = "[event_of ''a'' ''2025-04-15T09:00:00'' ''2025-04-15T10:00:00'' ''confirmed'']"
  let ?other = "event_of ''b'' ''2025-04-15T10:30:00'' ''next tuesday'' ''confirmed''"
  let ?after = "[event_of ''c'' ''2025-04-15T10:30:00'' ''2025-04-15T11:30:00'' ''confirmed'']"
  have h1: "py_fromisoformat (start_time ?bad) = None \<or> py_fromisoformat (end_time ?bad) = None"
    by (simp add: py_fromisoformat_simps event_of_def)
  have h2: "py_fromisoformat (start_time ?new) = Some (on_day 10 0)
        \<and> py_fromisoformat (end_time ?new) = Some (on_day 11 0)
        \<and> (\<forall>b \<in> set ?before. status b = ''cancelled'' \<or>
             (\<exists>bs be. py_fromisoformat (start_time b) = Some bs \<and> py_fromisoformat (end_time b) = Some be
                \<and> \<not> (on_day 10 0 < be \<and> on_day 11 0 > bs)))
        \<and> status ?other \<noteq> ''cancelled''
        \<and> (py_fromisoformat (start_time ?other) = None \<or> py_fromisoformat (end_time ?other) = None)"
    by (simp add: py_fromisoformat_simps event_of_def on_day_defs)
  note thm1 = malformed_timestamp_fails [where fromisoformat = py_fromisoformat and event = ?bad
      and other_events = "[]", THEN conjunct1, rule_format, OF h1]
  note thm2 = malformed_timestamp_fails [where fromisoformat = py_fromisoformat and event = ?new
      and event_start = "on_day 10 0" and event_end = "on_day 11 0" and before = ?before
      and other = ?other and after = ?after, THEN conjunct2, rule_format, OF h2]
  from thm1 thm2 show ?thesis by (rule conjI)
qed

text \<open>
  An event with unparsable timestamps does not always make the call fail: a cancelled one is
  skipped and the call returns \<^verbatim>\<open>False\<close>; one that comes after a conflicting event is
  never read and the call returns \<^verbatim>\<open>True\<close>.
\<close>

theorem malformed_timestamp_counterexample:
  "py_fromisoformat ''next tuesday'' = None
   \<and> is_conflicting py_fromisoformat
       (event_of ''new'' ''2025-04-15T10:00:00'' ''2025-04-15T11:00:00'' ''confirmed'')
       [event_of ''a'' ''next tuesday'' ''next tuesday'' ''cancelled''] = Inr False
   \<and> is_conflicting py_fromisoformat
       (event_of ''new'' ''2025-04-15T10:00:00'' ''2025-04-15T11:00:00'' ''confirmed'')
       [event_of ''b'' ''2025-04-15T10:30:00'' ''2025-04-15T11:30:00'' ''confirmed'',
        event_of ''c'' ''next tuesday'' ''next tuesday'' ''confirmed''] = Inr True"
  by (simp add: is_conflicting_def py_fromisoformat_simps event_of_def on_day_defs)

subsection \<open>Creating an event\<close>

text \<open>
  When the read of the stored events succeeds, \<^verbatim>\<open>create_event\<close> is atomic: on a conflict,
  and whenever it raises, the storage is as it was; without a conflict the stored list is
  the old list, in its order, with the event added at the end, and no other key changes.
\<close>

lemma create_event_atomic_when_read:
  assumes "\<not> get_raises db"
    and "events = (case json db ''calendar_events'' of None \<Rightarrow> [] | Some stored_events \<Rightarrow> stored_events)"
  shows "(is_conflicting fromisoformat event events = Inr True
            \<longrightarrow> create_event fromisoformat db event = (Inl Conflict, db))
       \<and> (\<forall>e. fst (create_event fromisoformat db event) = Inl e
            \<longrightarrow> snd (create_event fromisoformat db event) = db)
       \<and> (is_conflicting fromisoformat event events = Inr False
            \<longrightarrow> fst (create_event fromisoformat db event) = Inr event
              \<and> json (snd (create_event fromisoformat db event)) ''calendar_events''
                  = Some (events @ [event])
              \<and> (\<forall>key. key \<noteq> ''calendar_events'' \<longrightarrow>
                    json (snd (create_event fromisoformat db event)) key = json db key))"
proof -
  from assms have g: "get_calendar_events db = events"
    by (simp add: get_calendar_events_def json_get_def)
  show ?thesis
  proof (cases "is_conflicting fromisoformat event events")
    case (Inl e)
    with g show ?thesis by (simp add: create_event_def)
  next
    case (Inr conflict)
    with g show ?thesis
      by (cases conflict) (simp_all add: create_event_def save_calendar_events_def json_put_def)
  qed
qed

text \<open>
  Claim C9 fails on the source. The storage holds the event 10:00-11:00 and its read raises:
  \<^verbatim>\<open>get_calendar_events\<close> returns the empty list, so \<^verbatim>\<open>create_event\<close> finds no conflict
  for 10:30-11:30, which overlaps the stored event, returns it, and overwrites the stored
  list with the list of the new event alone.
\<close>

theorem create_event_after_failed_read:
  "json (unreadable [event_of ''a'' ''2025-04-15T10:00:00'' ''2025-04-15T11:00:00'' ''confirmed''])
     ''calendar_events''
     = Some [event_of ''a'' ''2025-04-15T10:00:00'' ''2025-04-15T11:00:00'' ''confirmed'']
   \<and> is_conflicting py_fromisoformat
       (event_of ''b'' ''2025-04-15T10:30:00'' ''2025-04-15T11:30:00'' ''confirmed'')
       [event_of ''a'' ''2025-04-15T10:00:00'' ''2025-04-15T11:00:00'' ''confirmed''] = Inr True
   \<and> fst (create_event py_fromisoformat
       (unreadable [event_of ''a'' ''2025-04-15T10:00:00'' ''2025-04-15T11:00:00'' ''confirmed''])
       (event_of ''b'' ''2025-04-15T10:30:00'' ''2025-04-15T11:30:00'' ''confirmed''))
     = Inr (event_of ''b'' ''2025-04-15T10:30:00'' ''2025-04-15T11:30:00'' ''confirmed'')
   \<and> json (snd (create_event py_fromisoformat
       (unreadable [event_of ''a'' ''2025-04-15T10:00:00'' ''2025-04-15T11:00:00'' ''confirmed''])
       (event_of ''b'' ''2025-04-15T10:30:00'' ''2025-04-15T11:30:00'' ''confirmed'')))
       ''calendar_events''
     = Some [event_of ''b'' ''2025-04-15T10:30:00'' ''2025-04-15T11:30:00'' ''confirmed'']"
  by code_simp

subsection \<open>The slot finder: termination and failures\<close>

text \<open>
  Claim C10. With a positive number of minutes the slot finder returns, whatever the date
  string, the stored events and the parsers: every emission loop moves \<open>current_time\<close> up
  by the positive duration towards its bound.
\<close>

theorem slot_finder_terminates:
  assumes "0 < minutes"
  shows "\<exists>r. get_available_slots strptime fromisoformat db date_str minutes = Some r"
proof (cases "strptime date_str")
  case None
  then show ?thesis by (simp add: get_available_slots_def)
next
  case (Some target_date)
  show ?thesis
  proof (cases "collect_day_events fromisoformat target_date (get_calendar_events db)")
    case (Inl e1)
    with Some show ?thesis by (simp add: get_available_slots_def)
  next
    case (Inr day_events)
    show ?thesis
    proof (cases "timedelta_minutes minutes")
      case (Inl e2)
      with Some Inr show ?thesis by (simp add: get_available_slots_def)
    next
      case (Inr slot_duration)
      from timedelta_minutes_pos [OF assms Inr] have "0 < slot_duration" .
      from walk_gaps_total [OF this] Some Inr
        \<open>collect_day_events fromisoformat target_date (get_calendar_events db) = Inr day_events\<close>
      show ?thesis by (simp add: get_available_slots_def)
    qed
  qed
qed

theorem slot_finder_terminates_witness:
  "(0::int) < 30 \<and>
   (\<exists>r. get_available_slots py_strptime py_fromisoformat
      (stored [event_of ''a'' ''2025-04-15T10:00:00'' ''2025-04-15T11:00:00'' ''confirmed''])
      ''2025-04-15'' 30 = Some r)"
proof -
  have h: "(0::int) < 30" by simp
  from h slot_finder_terminates [OF h] show ?thesis by blast
qed

text \<open>
  Claim C7. The slot finder fails with the error of an invalid date exactly when the date
  string does not parse: it then fails whatever the stored events and the duration are,
  and with a date that parses it never fails so.
\<close>

theorem invalid_date_iff:
  "get_available_slots strptime fromisoformat db date_str minutes = Some (Inl InvalidDate)
     \<longleftrightarrow> strptime date_str = None"
proof
  assume "get_available_slots strptime fromisoformat db date_str minutes = Some (Inl InvalidDate)"
  from get_available_slots_error [OF this] show "strptime date_str = None" by simp
next
  assume "strptime date_str = None"
  then show "get_available_slots strptime fromisoformat db date_str minutes = Some (Inl InvalidDate)"
    by (simp add: get_available_slots_def)
qed

theorem invalid_date_iff_witness:
  "py_strptime ''15/04/2025'' = None
   \<and> get_available_slots py_strptime py_fromisoformat
        (stored [event_of ''a'' ''2025-04-15T10:00:00'' ''2025-04-15T11:00:00'' ''confirmed''])
        ''15/04/2025'' 30 = Some (Inl InvalidDate)
   \<and> py_strptime ''2025-04-15'' \<noteq> None
   \<and> get_available_slots py_strptime py_fromisoformat
        (stored [event_of ''a'' ''2025-04-15T10:00:00'' ''2025-04-15T11:00:00'' ''confirmed''])
        ''2025-04-15'' 30 \<noteq> Some (Inl InvalidDate)"
proof -
  have a: "py_strptime ''15/04/2025'' = None" by (simp add: py_strptime_def)
  have b: "py_strptime ''2025-04-15'' \<noteq> None" by (simp add: py_strptime_def)
  from a b invalid_date_iff [of py_strptime py_fromisoformat _ "''15/04/2025''" 30]
    invalid_date_iff [of py_strptime py_fromisoformat _ "''2025-04-15''" 30]
  show ?thesis by simp
qed

text \<open>
  With a duration of zero the loop never ends once its guard holds: \<open>current_time\<close> does
  not move.
\<close>

lemma emit_slots_zero_partial:
  assumes "emit_slots slot_duration bound current_time free_slots = Some r"
  shows "\<not> (slot_duration = 0 \<and> 0 < date_of current_time \<and> date_of current_time \<le> MAXORDINAL
            \<and> current_time \<le> bound)"
proof (rule emit_slots.raw_induct [OF _ assms], goal_cases)
  case (1 emit slot_duration bound current_time free_slots r)
  show ?case
  proof
    assume c: "slot_duration = 0 \<and> 0 < date_of current_time \<and> date_of current_time \<le> MAXORDINAL
                 \<and> current_time \<le> bound"
    then have "add_timedelta current_time slot_duration = Inr current_time"
      by (simp add: add_timedelta_def)
    with 1(2) c have "emit slot_duration bound current_time
        (free_slots @ [\<lparr>ts_start = current_time, ts_end = current_time\<rparr>]) = Some r"
      by simp
    from 1(1) [OF this] c show False by simp
  qed
qed

lemma emit_slots_zero_never_returns:
  assumes "0 < date_of current_time" and "date_of current_time \<le> MAXORDINAL"
    and "current_time \<le> bound"
  shows "emit_slots 0 bound current_time free_slots = None"
proof (cases "emit_slots 0 bound current_time free_slots")
  case None
  then show ?thesis .
next
  case (Some r)
  from emit_slots_zero_partial [OF Some] assms show ?thesis by simp
qed

text \<open>
  With a negative duration the guard holds at every step, \<open>current_time\<close> moves down and
  the loop ends with the overflow of the date range.
\<close>

lemma emit_slots_negative_overflows:
  assumes "slot_duration < 0" and "current_time \<le> bound"
  shows "emit_slots slot_duration bound current_time free_slots = Some (Inl OverflowError)"
  using assms(2)
proof (induction "nat current_time" arbitrary: current_time free_slots rule: less_induct)
  case less
  show ?case
  proof (cases "add_timedelta current_time slot_duration")
    case (Inl e)
    with add_timedelta_Inl [OF Inl] show ?thesis by (subst emit_slots.simps) simp
  next
    case (Inr se)
    note se = add_timedelta_Inr [OF Inr]
    from Inr have "0 < date_of se" by (simp add: add_timedelta_def split: if_splits)
    then have "0 < se" by (simp add: date_of_def us_per_day_def pos_imp_zdiv_pos_iff)
    with se assms(1) have m: "nat se < nat current_time" by simp
    from se assms(1) less.prems have le: "se \<le> bound" by simp
    from less.hyps [OF m le] Inr le show ?thesis by (subst emit_slots.simps) simp
  qed
qed

lemma walk_gaps_empty_day:
  "walk_gaps slot_duration day_start day_end [] = emit_slots slot_duration day_end day_start []"
  by (simp add: walk_gaps_def)

text \<open>
  The slot finder on a day without busy intervals, with a duration that is not positive: it
  makes no check of the duration and enters the emission loop.
\<close>

lemma nonpositive_duration_empty_day:
  assumes "strptime date_str = Some target_date"
    and "0 < target_date" and "target_date \<le> MAXORDINAL"
    and "collect_day_events fromisoformat target_date (get_calendar_events db) = Inr []"
  shows "get_available_slots strptime fromisoformat db date_str 0 = None"
    and "minutes < 0 \<Longrightarrow> get_available_slots strptime fromisoformat db date_str minutes
           = Some (Inl OverflowError)"
proof -
  have d9: "date_of (combine_hour target_date 9) = target_date"
    by (simp add: date_of_def combine_hour_def us_per_day_def us_per_hour_def)
  have le: "combine_hour target_date 9 \<le> combine_hour target_date 17"
    by (simp add: combine_hour_def us_per_hour_def)
  have t0: "timedelta_minutes 0 = Inr 0" by (simp add: timedelta_minutes_def)
  from emit_slots_zero_never_returns [of "combine_hour target_date 9" "combine_hour target_date 17" "[]"]
    d9 le assms(2,3)
  have "emit_slots 0 (combine_hour target_date 17) (combine_hour target_date 9) [] = None" by simp
  with assms(1,4) t0 show "get_available_slots strptime fromisoformat db date_str 0 = None"
    by (simp add: get_available_slots_def walk_gaps_empty_day)
  show "get_available_slots strptime fromisoformat db date_str minutes = Some (Inl OverflowError)"
    if neg: "minutes < 0"
  proof (cases "timedelta_minutes minutes")
    case (Inl e)
    with timedelta_minutes_error [OF Inl] assms(1,4) show ?thesis
      by (simp add: get_available_slots_def)
  next
    case (Inr slot_duration)
    with neg have "slot_duration < 0"
      by (auto simp add: timedelta_minutes_def us_per_minute_def split: if_splits)
    from emit_slots_negative_overflows [OF this le] Inr assms(1,4) show ?thesis
      by (simp add: get_available_slots_def walk_gaps_empty_day)
  qed
qed

text \<open>
  Claim C3 fails on the source. The slot finder has no check of the duration. On
  2025-04-15 with no stored event, zero minutes make it loop for ever; minus thirty minutes
  make it walk down to the first date and fail with the overflow of the date range; and
  with the single event 08:00-18:00 no loop is entered and zero minutes return the empty
  list.
\<close>

theorem nonpositive_duration_not_rejected:
  "get_available_slots py_strptime py_fromisoformat (stored []) ''2025-04-15'' 0 = None
   \<and> get_available_slots py_strptime py_fromisoformat (stored []) ''2025-04-15'' (- 30)
       = Some (Inl OverflowError)
   \<and> get_available_slots py_strptime py_fromisoformat
       (stored [event_of ''a'' ''2025-04-15T08:00:00'' ''2025-04-15T18:00:00'' ''confirmed''])
       ''2025-04-15'' 0 = Some (Inr [])"
proof -
  have d: "py_strptime ''2025-04-15'' = Some day_2025_04_15" by (simp add: py_strptime_def)
  have r: "0 < day_2025_04_15" "day_2025_04_15 \<le> MAXORDINAL"
    by (simp_all add: day_2025_04_15_def MAXORDINAL_def)
  have c: "collect_day_events py_fromisoformat day_2025_04_15 (get_calendar_events (stored [])) = Inr []"
    by (simp add: get_stored)
  have "get_available_slots py_strptime py_fromisoformat
       (stored [event_of ''a'' ''2025-04-15T08:00:00'' ''2025-04-15T18:00:00'' ''confirmed''])
       ''2025-04-15'' 0 = Some (Inr [])"
    by code_simp
  with nonpositive_duration_empty_day(1) [where strptime = py_strptime
        and fromisoformat = py_fromisoformat and db = "stored []", OF d r c]
    nonpositive_duration_empty_day(2) [where strptime = py_strptime
        and fromisoformat = py_fromisoformat and db = "stored []" and minutes = "- 30", OF d r c]
  show ?thesis by simp
qed

subsection \<open>The slot finder: the events it considers\<close>

text \<open>
  The first loop, when every timestamp parses: the intervals of the events whose start and
  end are on the target date and whose status is not \<^verbatim>\<open>cancelled\<close>, in their order.
\<close>

lemma collect_day_events_filter:
  assumes "\<forall>event \<in> set all_events.
             fromisoformat (start_time event) \<noteq> None \<and> fromisoformat (end_time event) \<noteq> None"
  shows "collect_day_events fromisoformat target_date all_events =
           Inr (map (\<lambda>event. (the (fromisoformat (start_time event)),
                               the (fromisoformat (end_time event))))
                  (filter (\<lambda>event. date_of (the (fromisoformat (start_time event))) = target_date
                                  \<and> date_of (the (fromisoformat (end_time event))) = target_date
                                  \<and> status event \<noteq> ''cancelled'')
                     all_events))"
  using assms
  by (induction all_events) (auto split: option.splits)





text \<open>
  When all timestamps parse, the result is the one the slot finder gives when only the
  events it keeps are stored.
\<close>

lemma slot_finder_ignores_other_events:
  assumes "\<forall>event \<in> set (get_calendar_events db).
           fromisoformat (start_time event) \<noteq> None \<and> fromisoformat (end_time event) \<noteq> None"
  shows "get_available_slots strptime fromisoformat db date_str minutes =
           get_available_slots strptime fromisoformat
             (save_calendar_events db
                (filter (\<lambda>event. date_of (the (fromisoformat (start_time event))) = the (strptime date_str)
                                \<and> date_of (the (fromisoformat (end_time event))) = the (strptime date_str)
                                \<and> status event \<noteq> ''cancelled'')
                   (get_calendar_events db)))
             date_str minutes"
proof (cases "strptime date_str")
  case None
  then show ?thesis by (simp add: get_available_slots_def)
next
  case (Some target_date)
  let ?keep = "\<lambda>event. date_of (the (fromisoformat (start_time event))) = target_date
                                \<and> date_of (the (fromisoformat (end_time event))) = target_date
                                \<and> status event \<noteq> ''cancelled''"
  let ?kept = "filter ?keep (get_calendar_events db)"
  have e: "get_raises db \<Longrightarrow> get_calendar_events db = []"
    by (simp add: get_calendar_events_def json_get_def)
  have g: "get_calendar_events (save_calendar_events db ?kept) = ?kept"
    using e by (cases "get_raises db") (simp_all add: get_save_calendar_events)
  have "\<forall>event \<in> set ?kept.
           fromisoformat (start_time event) \<noteq> None \<and> fromisoformat (end_time event) \<noteq> None"
    using assms by simp
  from collect_day_events_filter [OF assms, of target_date]
    collect_day_events_filter [OF this, of target_date]
  have "collect_day_events fromisoformat target_date ?kept
          = collect_day_events fromisoformat target_date (get_calendar_events db)"
    by simp
  with Some g show ?thesis by (simp add: get_available_slots_def)
qed

subsection \<open>The slot finder: the slots it returns\<close>

text \<open>Every returned slot is exactly as long as requested, for every input.\<close>

lemma between_events_slots:
  "between_events slot_duration occupied_slots free_slots = Some (Inr out) \<Longrightarrow>
     \<exists>new. out = free_slots @ new \<and> (\<forall>s \<in> set new. ts_end s = ts_start s + slot_duration)"
proof (induction slot_duration occupied_slots free_slots rule: between_events.induct)
  case (1 slot_duration occ next_occ occupied_slots free_slots)
  from "1.prems" obtain fs1
    where e: "emit_slots slot_duration (fst next_occ) (snd occ) free_slots = Some (Inr fs1)"
      and b: "between_events slot_duration (next_occ # occupied_slots) fs1 = Some (Inr out)"
    by (auto split: option.splits sum.splits)
  from emit_slots_partial [OF e] obtain new1 where n1: "fs1 = free_slots @ new1"
    "\<forall>s \<in> set new1. ts_end s = ts_start s + slot_duration" by auto
  from "1.IH" [OF e refl b] obtain new2 where n2: "out = fs1 @ new2"
    "\<forall>s \<in> set new2. ts_end s = ts_start s + slot_duration" by auto
  from n1 n2 have "out = free_slots @ (new1 @ new2)
      \<and> (\<forall>s \<in> set (new1 @ new2). ts_end s = ts_start s + slot_duration)" by auto
  then show ?case by blast
qed simp_all

lemma walk_gaps_slots:
  assumes "walk_gaps slot_duration day_start day_end occupied_slots = Some (Inr out)"
  shows "\<forall>s \<in> set out. ts_end s = ts_start s + slot_duration"
proof (cases "occupied_slots = []")
  case True
  with assms have "emit_slots slot_duration day_end day_start [] = Some (Inr out)"
    by (simp add: walk_gaps_def)
  from emit_slots_partial [OF this] show ?thesis by auto
next
  case False
  let ?first = "if day_start < fst (hd occupied_slots)
              then emit_slots slot_duration (fst (hd occupied_slots)) day_start []
              else Some (Inr [])"
  from assms False obtain fs1 fs2 where 1: "?first = Some (Inr fs1)"
    and 2: "between_events slot_duration occupied_slots fs1 = Some (Inr fs2)"
    and 3: "emit_slots slot_duration day_end (snd (last occupied_slots)) fs2 = Some (Inr out)"
    by (auto simp add: walk_gaps_def split: option.splits sum.splits)
  have "\<forall>s \<in> set fs1. ts_end s = ts_start s + slot_duration"
  proof (cases "day_start < fst (hd occupied_slots)")
    case True
    with 1 have "emit_slots slot_duration (fst (hd occupied_slots)) day_start [] = Some (Inr fs1)"
      by simp
    from emit_slots_partial [OF this] show ?thesis by auto
  next
    case False
    with 1 show ?thesis by simp
  qed
  moreover from between_events_slots [OF 2] obtain new2 where "fs2 = fs1 @ new2"
    "\<forall>s \<in> set new2. ts_end s = ts_start s + slot_duration" by auto
  moreover from emit_slots_partial [OF 3] obtain new3 where "out = fs2 @ new3"
    "\<forall>s \<in> set new3. ts_end s = ts_start s + slot_duration" by auto
  ultimately show ?thesis by auto
qed

lemma slot_length_exact:
  assumes "get_available_slots strptime fromisoformat db date_str minutes = Some (Inr slots)"
  shows "\<forall>s \<in> set slots. ts_end s - ts_start s = minutes * us_per_minute"
proof -
  from assms obtain target_date day_events slot_duration
    where "timedelta_minutes minutes = Inr slot_duration"
      and w: "walk_gaps slot_duration (combine_hour target_date 9) (combine_hour target_date 17)
           (sort_key fst day_events) = Some (Inr slots)"
    by (auto simp add: get_available_slots_def split: option.splits sum.splits)
  then have "slot_duration = minutes * us_per_minute"
    by (simp add: timedelta_minutes_def split: if_splits)
  with walk_gaps_slots [OF w] show ?thesis by simp
qed

text \<open>
  The slots of the gaps between the events: in order, and between the start of the first
  event and the start of the last.
\<close>

lemma between_events_ordered:
  assumes "0 \<le> slot_duration"
    and "sorted (map fst occupied_slots)"
    and "\<forall>x \<in> set occupied_slots. fst x \<le> snd x"
    and "between_events slot_duration occupied_slots free_slots = Some (Inr out)"
  shows "\<exists>new. out = free_slots @ new
           \<and> sorted_wrt (\<lambda>a b. ts_end a \<le> ts_start b) new
           \<and> (\<forall>s \<in> set new. occupied_slots \<noteq> []
                 \<and> fst (hd occupied_slots) \<le> ts_start s \<and> ts_end s \<le> fst (last occupied_slots))"
  using assms
proof (induction slot_duration occupied_slots free_slots rule: between_events.induct)
  case (1 slot_duration occ next_occ occupied_slots free_slots)
  from "1.prems"(4) obtain fs1
    where e: "emit_slots slot_duration (fst next_occ) (snd occ) free_slots = Some (Inr fs1)"
      and b: "between_events slot_duration (next_occ # occupied_slots) fs1 = Some (Inr out)"
    by (auto split: option.splits sum.splits)
  from emit_slots_partial [OF e] "1.prems"(1) obtain new1 where n1: "fs1 = free_slots @ new1"
    "\<forall>s \<in> set new1. ts_end s \<le> fst next_occ \<and> snd occ \<le> ts_start s"
    "sorted_wrt (\<lambda>a b. ts_end a \<le> ts_start b) new1" by auto
  have srt: "sorted (map fst (next_occ # occupied_slots))"
    and wf: "\<forall>x \<in> set (next_occ # occupied_slots). fst x \<le> snd x"
    using "1.prems"(2,3) by simp_all
  from "1.IH" [OF e refl "1.prems"(1) srt wf b] obtain new2 where n2: "out = fs1 @ new2"
    "sorted_wrt (\<lambda>a b. ts_end a \<le> ts_start b) new2"
    "\<forall>s \<in> set new2. fst next_occ \<le> ts_start s \<and> ts_end s \<le> fst (last (next_occ # occupied_slots))"
    by auto
  have "last (next_occ # occupied_slots) \<in> set (next_occ # occupied_slots)"
    by (rule last_in_set) simp
  moreover have "\<forall>x \<in> set (next_occ # occupied_slots). fst next_occ \<le> fst x"
    using srt by auto
  ultimately have le_last: "fst next_occ \<le> fst (last (next_occ # occupied_slots))"
    by blast
  have le_occ: "fst occ \<le> fst next_occ" "fst occ \<le> snd occ"
    using "1.prems"(2,3) by simp_all
  have "out = free_slots @ (new1 @ new2)" using n1 n2 by simp
  moreover have "sorted_wrt (\<lambda>a b. ts_end a \<le> ts_start b) (new1 @ new2)"
    using n1 n2 by (fastforce simp add: sorted_wrt_append)
  moreover have "\<forall>s \<in> set (new1 @ new2).
      fst occ \<le> ts_start s \<and> ts_end s \<le> fst (last (next_occ # occupied_slots))"
    using n1(2) n2(3) le_last le_occ by fastforce
  moreover have "last (occ # next_occ # occupied_slots) = last (next_occ # occupied_slots)"
    by simp
  ultimately have "out = free_slots @ (new1 @ new2)
      \<and> sorted_wrt (\<lambda>a b. ts_end a \<le> ts_start b) (new1 @ new2)
      \<and> (\<forall>s \<in> set (new1 @ new2). occ # next_occ # occupied_slots \<noteq> []
            \<and> fst (hd (occ # next_occ # occupied_slots)) \<le> ts_start s
            \<and> ts_end s \<le> fst (last (occ # next_occ # occupied_slots)))"
    by (simp del: last.simps)
  then show ?case by blast
qed simp_all

lemma chain_sorted:
  "sorted_wrt (\<lambda>a b. snd a \<le> fst b) xs \<Longrightarrow> \<forall>x \<in> set xs. fst x \<le> snd x
     \<Longrightarrow> sorted (map fst (xs :: (int \<times> int) list))"
proof (induction xs)
  case Nil
  then show ?case by simp
next
  case (Cons a xs)
  have "\<forall>y \<in> set xs. fst a \<le> fst y"
  proof
    fix y assume "y \<in> set xs"
    with Cons.prems have "snd a \<le> fst y" "fst a \<le> snd a" by simp_all
    then show "fst a \<le> fst y" by simp
  qed
  with Cons show ?case by simp
qed

lemma between_events_free:
  assumes "0 \<le> slot_duration"
    and "sorted_wrt (\<lambda>a b. snd a \<le> fst b) occupied_slots"
    and "\<forall>x \<in> set occupied_slots. fst x \<le> snd x"
    and "between_events slot_duration occupied_slots free_slots = Some (Inr out)"
  shows "\<exists>new. out = free_slots @ new
           \<and> (\<forall>s \<in> set new. \<forall>x \<in> set occupied_slots. ts_end s \<le> fst x \<or> snd x \<le> ts_start s)"
  using assms
proof (induction slot_duration occupied_slots free_slots rule: between_events.induct)
  case (1 slot_duration occ next_occ occupied_slots free_slots)
  from "1.prems"(4) obtain fs1
    where e: "emit_slots slot_duration (fst next_occ) (snd occ) free_slots = Some (Inr fs1)"
      and b: "between_events slot_duration (next_occ # occupied_slots) fs1 = Some (Inr out)"
    by (auto split: option.splits sum.splits)
  from emit_slots_partial [OF e] "1.prems"(1) obtain new1 where n1: "fs1 = free_slots @ new1"
    and in1: "\<forall>s \<in> set new1. ts_end s \<le> fst next_occ \<and> snd occ \<le> ts_start s" by auto
  have chain: "sorted_wrt (\<lambda>a b. snd a \<le> fst b) (next_occ # occupied_slots)"
    and wf: "\<forall>x \<in> set (next_occ # occupied_slots). fst x \<le> snd x"
    using "1.prems"(2,3) by simp_all
  have srt: "sorted (map fst (next_occ # occupied_slots))"
    using chain wf by (rule chain_sorted)
  from "1.IH" [OF e refl "1.prems"(1) chain wf b] obtain new2 where n2: "out = fs1 @ new2"
    and in2: "\<forall>s \<in> set new2. \<forall>x \<in> set (next_occ # occupied_slots).
                ts_end s \<le> fst x \<or> snd x \<le> ts_start s"
    by blast
  from between_events_ordered [OF "1.prems"(1) srt wf b] obtain new2'
    where "out = fs1 @ new2'" and lo': "\<forall>s \<in> set new2'. fst next_occ \<le> ts_start s"
    by auto
  with n2 have lo: "\<forall>s \<in> set new2. fst next_occ \<le> ts_start s" by simp
  have a_b: "snd occ \<le> fst next_occ" using "1.prems"(2) by simp
  have later: "\<forall>x \<in> set (next_occ # occupied_slots). fst next_occ \<le> fst x"
    using srt by simp
  have "\<forall>s \<in> set (new1 @ new2). \<forall>x \<in> set (occ # next_occ # occupied_slots).
       ts_end s \<le> fst x \<or> snd x \<le> ts_start s"
  proof (intro ballI)
    fix s x
    assume s: "s \<in> set (new1 @ new2)" and x: "x \<in> set (occ # next_occ # occupied_slots)"
    show "ts_end s \<le> fst x \<or> snd x \<le> ts_start s"
    proof (cases "s \<in> set new1")
      case True
      with in1 have s1: "ts_end s \<le> fst next_occ" "snd occ \<le> ts_start s" by simp_all
      show ?thesis
      proof (cases "x = occ")
        case True
        with s1 show ?thesis by simp
      next
        case False
        with x later have "fst next_occ \<le> fst x" by auto
        with s1 show ?thesis by simp
      qed
    next
      case False
      with s have s2: "s \<in> set new2" by simp
      show ?thesis
      proof (cases "x = occ")
        case True
        from lo s2 a_b have "snd occ \<le> ts_start s" by force
        with True show ?thesis by simp
      next
        case False
        with x have "x \<in> set (next_occ # occupied_slots)" by simp
        with in2 s2 show ?thesis by blast
      qed
    qed
  qed
  moreover have "out = free_slots @ (new1 @ new2)" using n1 n2 by simp
  ultimately show ?case by blast
qed simp_all


lemma walk_gaps_parts:
  assumes "occupied_slots \<noteq> []"
    and "walk_gaps slot_duration day_start day_end occupied_slots = Some (Inr out)"
  obtains fs1 fs2 where
    "(if day_start < fst (hd occupied_slots)
      then emit_slots slot_duration (fst (hd occupied_slots)) day_start []
      else Some (Inr [])) = Some (Inr fs1)"
    "between_events slot_duration occupied_slots fs1 = Some (Inr fs2)"
    "emit_slots slot_duration day_end (snd (last occupied_slots)) fs2 = Some (Inr out)"
  using assms by (auto simp add: walk_gaps_def split: option.splits sum.splits)

lemma walk_gaps_ordered:
  assumes d: "0 \<le> slot_duration"
    and srt: "sorted (map fst occupied_slots)"
    and wf: "\<forall>x \<in> set occupied_slots. fst x \<le> snd x"
    and w: "walk_gaps slot_duration day_start day_end occupied_slots = Some (Inr out)"
  shows "sorted_wrt (\<lambda>a b. ts_end a \<le> ts_start b) out"
proof (cases "occupied_slots = []")
  case True
  with w have "emit_slots slot_duration day_end day_start [] = Some (Inr out)"
    by (simp add: walk_gaps_def)
  from emit_slots_partial [OF this] d show ?thesis by auto
next
  case False
  from walk_gaps_parts [OF False w] obtain fs1 fs2 where
    1: "(if day_start < fst (hd occupied_slots)
      then emit_slots slot_duration (fst (hd occupied_slots)) day_start []
      else Some (Inr [])) = Some (Inr fs1)"
    and 2: "between_events slot_duration occupied_slots fs1 = Some (Inr fs2)"
    and 3: "emit_slots slot_duration day_end (snd (last occupied_slots)) fs2 = Some (Inr out)"
    by blast
  have p1: "sorted_wrt (\<lambda>a b. ts_end a \<le> ts_start b) fs1
            \<and> (\<forall>s \<in> set fs1. ts_end s \<le> fst (hd occupied_slots))"
  proof (cases "day_start < fst (hd occupied_slots)")
    case True
    with 1 have "emit_slots slot_duration (fst (hd occupied_slots)) day_start [] = Some (Inr fs1)"
      by simp
    from emit_slots_partial [OF this] d show ?thesis by auto
  next
    case False
    with 1 show ?thesis by simp
  qed
  from between_events_ordered [OF d srt wf 2] obtain new2 where n2: "fs2 = fs1 @ new2"
    and s2: "sorted_wrt (\<lambda>a b. ts_end a \<le> ts_start b) new2"
    and b2: "\<forall>s \<in> set new2. fst (hd occupied_slots) \<le> ts_start s
               \<and> ts_end s \<le> fst (last occupied_slots)"
    by blast
  from emit_slots_partial [OF 3] d obtain new3 where n3: "out = fs2 @ new3"
    and s3: "sorted_wrt (\<lambda>a b. ts_end a \<le> ts_start b) new3"
    and b3: "\<forall>s \<in> set new3. snd (last occupied_slots) \<le> ts_start s"
    by auto
  have hd_in: "hd occupied_slots \<in> set occupied_slots"
    and last_in: "last occupied_slots \<in> set occupied_slots"
    using False by simp_all
  have "\<forall>x \<in> set occupied_slots. fst (hd occupied_slots) \<le> fst x"
    using srt False by (cases occupied_slots) auto
  with last_in have hd_last: "fst (hd occupied_slots) \<le> fst (last occupied_slots)" by blast
  from wf last_in have last_wf: "fst (last occupied_slots) \<le> snd (last occupied_slots)" by blast
  have 12: "\<forall>a \<in> set fs1. \<forall>b \<in> set new2. ts_end a \<le> ts_start b"
  proof (intro ballI)
    fix a b assume "a \<in> set fs1" "b \<in> set new2"
    with p1 b2 have "ts_end a \<le> fst (hd occupied_slots)" "fst (hd occupied_slots) \<le> ts_start b"
      by simp_all
    then show "ts_end a \<le> ts_start b" by simp
  qed
  have 123: "\<forall>a \<in> set (fs1 @ new2). \<forall>b \<in> set new3. ts_end a \<le> ts_start b"
  proof (intro ballI)
    fix a b assume a: "a \<in> set (fs1 @ new2)" and b: "b \<in> set new3"
    from a p1 b2 hd_last have "ts_end a \<le> fst (last occupied_slots)" by fastforce
    moreover from b b3 have "snd (last occupied_slots) \<le> ts_start b" by simp
    ultimately show "ts_end a \<le> ts_start b" using last_wf by simp
  qed
  from p1 s2 12 have "sorted_wrt (\<lambda>a b. ts_end a \<le> ts_start b) (fs1 @ new2)"
    by (simp add: sorted_wrt_append)
  with s3 123 have "sorted_wrt (\<lambda>a b. ts_end a \<le> ts_start b) ((fs1 @ new2) @ new3)"
    by (simp only: sorted_wrt_append) simp
  with n2 n3 show ?thesis by simp
qed

lemma walk_gaps_free:
  assumes d: "0 \<le> slot_duration"
    and chain: "sorted_wrt (\<lambda>a b. snd a \<le> fst b) occupied_slots"
    and wf: "\<forall>x \<in> set occupied_slots. fst x \<le> snd x"
    and w: "walk_gaps slot_duration day_start day_end occupied_slots = Some (Inr out)"
  shows "\<forall>s \<in> set out. \<forall>x \<in> set occupied_slots. ts_end s \<le> fst x \<or> snd x \<le> ts_start s"
proof (cases "occupied_slots = []")
  case True
  then show ?thesis by simp
next
  case False
  from walk_gaps_parts [OF False w] obtain fs1 fs2 where
    1: "(if day_start < fst (hd occupied_slots)
      then emit_slots slot_duration (fst (hd occupied_slots)) day_start []
      else Some (Inr [])) = Some (Inr fs1)"
    and 2: "between_events slot_duration occupied_slots fs1 = Some (Inr fs2)"
    and 3: "emit_slots slot_duration day_end (snd (last occupied_slots)) fs2 = Some (Inr out)"
    by blast
  have srt: "sorted (map fst occupied_slots)" using chain wf by (rule chain_sorted)
  have first: "\<forall>x \<in> set occupied_slots. fst (hd occupied_slots) \<le> fst x"
    using srt False by (cases occupied_slots) auto
  have final: "\<forall>x \<in> set occupied_slots. snd x \<le> snd (last occupied_slots)"
  proof
    fix x assume x: "x \<in> set occupied_slots"
    show "snd x \<le> snd (last occupied_slots)"
    proof (cases "x = last occupied_slots")
      case True
      then show ?thesis by simp
    next
      case False
      from \<open>occupied_slots \<noteq> []\<close> have "occupied_slots = butlast occupied_slots @ [last occupied_slots]"
        by simp
      with chain have "sorted_wrt (\<lambda>a b. snd a \<le> fst b) (butlast occupied_slots @ [last occupied_slots])"
        by simp
      then have "\<forall>y \<in> set (butlast occupied_slots). snd y \<le> fst (last occupied_slots)"
        by (simp add: sorted_wrt_append)
      moreover from x False \<open>occupied_slots \<noteq> []\<close> have "x \<in> set (butlast occupied_slots)"
        by (metis append_butlast_last_id in_set_conv_decomp_last last_snoc rotate1.simps(2) set_ConsD set_rotate1)
      moreover have "fst (last occupied_slots) \<le> snd (last occupied_slots)"
        using wf \<open>occupied_slots \<noteq> []\<close> by simp
      ultimately show ?thesis by fastforce
    qed
  qed
  have p1: "\<forall>s \<in> set fs1. ts_end s \<le> fst (hd occupied_slots)"
  proof (cases "day_start < fst (hd occupied_slots)")
    case True
    with 1 have "emit_slots slot_duration (fst (hd occupied_slots)) day_start [] = Some (Inr fs1)"
      by simp
    from emit_slots_partial [OF this] show ?thesis by auto
  next
    case False
    with 1 show ?thesis by simp
  qed
  from between_events_free [OF d chain wf 2] obtain new2 where n2: "fs2 = fs1 @ new2"
    and f2: "\<forall>s \<in> set new2. \<forall>x \<in> set occupied_slots. ts_end s \<le> fst x \<or> snd x \<le> ts_start s"
    by blast
  from emit_slots_partial [OF 3] d obtain new3 where n3: "out = fs2 @ new3"
    and b3: "\<forall>s \<in> set new3. snd (last occupied_slots) \<le> ts_start s"
    by auto
  show ?thesis
  proof (intro ballI)
    fix s x assume s: "s \<in> set out" and x: "x \<in> set occupied_slots"
    from s n2 n3 consider "s \<in> set fs1" | "s \<in> set new2" | "s \<in> set new3" by auto
    then show "ts_end s \<le> fst x \<or> snd x \<le> ts_start s"
    proof cases
      case 1
      with p1 first x have "ts_end s \<le> fst (hd occupied_slots)" "fst (hd occupied_slots) \<le> fst x"
        by simp_all
      then show ?thesis by simp
    next
      case 2
      with f2 x show ?thesis by blast
    next
      case 3
      with b3 final x have "snd (last occupied_slots) \<le> ts_start s" "snd x \<le> snd (last occupied_slots)"
        by simp_all
      then show ?thesis by simp
    qed
  qed
qed

text \<open>
  What the walk does guarantee, for a duration that is not negative. When every busy
  interval has its start at or before its end, the returned slots are in chronological
  order and no two of them overlap.
\<close>

lemma slots_ordered:
  assumes "0 \<le> minutes"
    and "strptime date_str = Some target_date"
    and "collect_day_events fromisoformat target_date (get_calendar_events db) = Inr day_events"
    and wf: "\<forall>x \<in> set day_events. fst x \<le> snd x"
    and "get_available_slots strptime fromisoformat db date_str minutes = Some (Inr slots)"
  shows "sorted_wrt (\<lambda>a b. ts_end a \<le> ts_start b) slots"
proof -
  from assms(2,3,5) obtain slot_duration
    where t: "timedelta_minutes minutes = Inr slot_duration"
      and w: "walk_gaps slot_duration (combine_hour target_date 9) (combine_hour target_date 17)
           (sort_key fst day_events) = Some (Inr slots)"
    by (auto simp add: get_available_slots_def split: sum.splits)
  from t assms(1) have d: "0 \<le> slot_duration"
    by (auto simp add: timedelta_minutes_def us_per_minute_def split: if_splits)
  have wf': "\<forall>x \<in> set (sort_key fst day_events). fst x \<le> snd x" using wf by simp
  have srt: "sorted (map fst (sort_key fst day_events))" by (rule sorted_sort_key)
  from walk_gaps_ordered [OF d srt wf' w] show ?thesis .
qed

text \<open>
  When moreover each busy interval, in the order of their starts, ends at or before the
  start of the next one, no returned slot overlaps a busy interval.
\<close>

lemma slots_free:
  assumes "0 \<le> minutes"
    and "strptime date_str = Some target_date"
    and "collect_day_events fromisoformat target_date (get_calendar_events db) = Inr day_events"
    and wf: "\<forall>x \<in> set day_events. fst x \<le> snd x"
    and chain: "sorted_wrt (\<lambda>a b. snd a \<le> fst b) (sort_key fst day_events)"
    and "get_available_slots strptime fromisoformat db date_str minutes = Some (Inr slots)"
  shows "\<forall>s \<in> set slots. \<forall>x \<in> set day_events. ts_end s \<le> fst x \<or> snd x \<le> ts_start s"
proof -
  from assms(2,3,6) obtain slot_duration
    where t: "timedelta_minutes minutes = Inr slot_duration"
      and w: "walk_gaps slot_duration (combine_hour target_date 9) (combine_hour target_date 17)
           (sort_key fst day_events) = Some (Inr slots)"
    by (auto simp add: get_available_slots_def split: sum.splits)
  from t assms(1) have d: "0 \<le> slot_duration"
    by (auto simp add: timedelta_minutes_def us_per_minute_def split: if_splits)
  have wf': "\<forall>x \<in> set (sort_key fst day_events). fst x \<le> snd x" using wf by simp
  from walk_gaps_free [OF d chain wf' w] show ?thesis by simp
qed

text \<open>
  Claim C1 fails on the source. With 09:00-13:00 and, nested in it, 10:00-12:00 stored, the
  walk restarts at 12:00, the end of the interval that starts last: the slots 12:00-12:30
  and 12:30-13:00 lie inside the busy interval 09:00-13:00. The same happens with stored
  events that \<^verbatim>\<open>create_event\<close> accepts one after the other, 10:00-11:00 and then the
  empty event 10:00-10:00: the walk restarts at 10:00 and returns all sixteen slots of the
  day.
\<close>

theorem slot_inside_busy_interval:
  "get_available_slots py_strptime py_fromisoformat
     (stored [event_of ''a'' ''2025-04-15T09:00:00'' ''2025-04-15T13:00:00'' ''confirmed'',
              event_of ''b'' ''2025-04-15T10:00:00'' ''2025-04-15T12:00:00'' ''confirmed''])
     ''2025-04-15'' 30
   = Some (Inr [slot (on_day 12 0) (on_day 12 30), slot (on_day 12 30) (on_day 13 0),
                slot (on_day 13 0) (on_day 13 30), slot (on_day 13 30) (on_day 14 0),
                slot (on_day 14 0) (on_day 14 30), slot (on_day 14 30) (on_day 15 0),
                slot (on_day 15 0) (on_day 15 30), slot (on_day 15 30) (on_day 16 0),
                slot (on_day 16 0) (on_day 16 30), slot (on_day 16 30) (on_day 17 0)])
   \<and> on_day 12 0 < on_day 13 0 \<and> on_day 9 0 < on_day 12 30
   \<and> get_calendar_events (snd (create_event py_fromisoformat
        (snd (create_event py_fromisoformat empty_storage
           (event_of ''b'' ''2025-04-15T10:00:00'' ''2025-04-15T11:00:00'' ''confirmed'')))
        (event_of ''z'' ''2025-04-15T10:00:00'' ''2025-04-15T10:00:00'' ''confirmed'')))
     = [event_of ''b'' ''2025-04-15T10:00:00'' ''2025-04-15T11:00:00'' ''confirmed'',
        event_of ''z'' ''2025-04-15T10:00:00'' ''2025-04-15T10:00:00'' ''confirmed'']
   \<and> get_available_slots py_strptime py_fromisoformat
     (stored [event_of ''b'' ''2025-04-15T10:00:00'' ''2025-04-15T11:00:00'' ''confirmed'',
              event_of ''z'' ''2025-04-15T10:00:00'' ''2025-04-15T10:00:00'' ''confirmed''])
     ''2025-04-15'' 30
   = Some (Inr [slot (on_day 9 0) (on_day 9 30), slot (on_day 9 30) (on_day 10 0),
                slot (on_day 10 0) (on_day 10 30), slot (on_day 10 30) (on_day 11 0),
                slot (on_day 11 0) (on_day 11 30), slot (on_day 11 30) (on_day 12 0),
                slot (on_day 12 0) (on_day 12 30), slot (on_day 12 30) (on_day 13 0),
                slot (on_day 13 0) (on_day 13 30), slot (on_day 13 30) (on_day 14 0),
                slot (on_day 14 0) (on_day 14 30), slot (on_day 14 30) (on_day 15 0),
                slot (on_day 15 0) (on_day 15 30), slot (on_day 15 30) (on_day 16 0),
                slot (on_day 16 0) (on_day 16 30), slot (on_day 16 30) (on_day 17 0)])"
  by code_simp

text \<open>
  Claim C2 fails on the source. With the single event 18:00-19:00, which
  \<^verbatim>\<open>create_event\<close> stores, the first gap runs from 09:00 to the start of the event and
  not to 17:00: the slots 17:00-17:30 and 17:30-18:00 end after the business hours.
\<close>

theorem slot_outside_business_hours:
  "get_calendar_events (snd (create_event py_fromisoformat empty_storage
       (event_of ''a'' ''2025-04-15T18:00:00'' ''2025-04-15T19:00:00'' ''confirmed'')))
     = [event_of ''a'' ''2025-04-15T18:00:00'' ''2025-04-15T19:00:00'' ''confirmed'']
   \<and> get_available_slots py_strptime py_fromisoformat
     (stored [event_of ''a'' ''2025-04-15T18:00:00'' ''2025-04-15T19:00:00'' ''confirmed''])
     ''2025-04-15'' 30
   = Some (Inr [slot (on_day 9 0) (on_day 9 30), slot (on_day 9 30) (on_day 10 0),
                slot (on_day 10 0) (on_day 10 30), slot (on_day 10 30) (on_day 11 0),
                slot (on_day 11 0) (on_day 11 30), slot (on_day 11 30) (on_day 12 0),
                slot (on_day 12 0) (on_day 12 30), slot (on_day 12 30) (on_day 13 0),
                slot (on_day 13 0) (on_day 13 30), slot (on_day 13 30) (on_day 14 0),
                slot (on_day 14 0) (on_day 14 30), slot (on_day 14 30) (on_day 15 0),
                slot (on_day 15 0) (on_day 15 30), slot (on_day 15 30) (on_day 16 0),
                slot (on_day 16 0) (on_day 16 30), slot (on_day 16 30) (on_day 17 0),
                slot (on_day 17 0) (on_day 17 30), slot (on_day 17 30) (on_day 18 0)])
   \<and> combine_hour day_2025_04_15 17 < on_day 17 30"
  by code_simp

subsection \<open>The alternative-time suggester\<close>

text \<open>
  Claim C8. When the slot finder returns \<open>n\<close> slots, \<^verbatim>\<open>suggest_alternative_times\<close>
  returns their first \<open>min 3 n\<close>, in the same order; a failure of the slot finder is
  passed on.
\<close>

theorem suggest_takes_first_three:
  "(get_available_slots strptime fromisoformat db (date request) (duration_minutes request)
      = Some (Inr available_slots)
    \<longrightarrow> suggest_alternative_times strptime fromisoformat db request
          = Some (Inr (take 3 available_slots))
        \<and> length (take 3 available_slots) = min 3 (length available_slots))
   \<and> (get_available_slots strptime fromisoformat db (date request) (duration_minutes request)
        = Some (Inl e)
      \<longrightarrow> suggest_alternative_times strptime fromisoformat db request = Some (Inl e))"
  by (simp add: suggest_alternative_times_def min_def)

text \<open>Sixteen slots give the first three; two slots give both.\<close>

theorem suggest_takes_first_three_witness:
  "suggest_alternative_times py_strptime py_fromisoformat (stored [])
     \<lparr>date = ''2025-04-15'', duration_minutes = 30\<rparr>
   = Some (Inr [slot (on_day 9 0) (on_day 9 30), slot (on_day 9 30) (on_day 10 0),
                slot (on_day 10 0) (on_day 10 30)])
   \<and> suggest_alternative_times py_strptime py_fromisoformat (stored [])
     \<lparr>date = ''2025-04-15'', duration_minutes = 240\<rparr>
   = Some (Inr [slot (on_day 9 0) (on_day 13 0), slot (on_day 13 0) (on_day 17 0)])"
proof -
  let ?r30 = "\<lparr>date = ''2025-04-15'', duration_minutes = 30\<rparr>"
  let ?r240 = "\<lparr>date = ''2025-04-15'', duration_minutes = 240\<rparr>"
  have a: "get_available_slots py_strptime py_fromisoformat (stored []) (date ?r30)
             (duration_minutes ?r30)
        = Some (Inr [slot (on_day 9 0) (on_day 9 30), slot (on_day 9 30) (on_day 10 0),
                slot (on_day 10 0) (on_day 10 30), slot (on_day 10 30) (on_day 11 0),
                slot (on_day 11 0) (on_day 11 30), slot (on_day 11 30) (on_day 12 0),
                slot (on_day 12 0) (on_day 12 30), slot (on_day 12 30) (on_day 13 0),
                slot (on_day 13 0) (on_day 13 30), slot (on_day 13 30) (on_day 14 0),
                slot (on_day 14 0) (on_day 14 30), slot (on_day 14 30) (on_day 15 0),
                slot (on_day 15 0) (on_day 15 30), slot (on_day 15 30) (on_day 16 0),
                slot (on_day 16 0) (on_day 16 30), slot (on_day 16 30) (on_day 17 0)])"
    by code_simp
  have b: "get_available_slots py_strptime py_fromisoformat (stored []) (date ?r240)
             (duration_minutes ?r240)
        = Some (Inr [slot (on_day 9 0) (on_day 13 0), slot (on_day 13 0) (on_day 17 0)])"
    by code_simp
  from suggest_takes_first_three [THEN conjunct1, rule_format, OF a, THEN conjunct1]
    suggest_takes_first_three [THEN conjunct1, rule_format, OF b, THEN conjunct1]
  show ?thesis by simp
qed

end
